theory Spec2Isabelle
  imports Main "HOL-Library.Multiset"
begin

section \<open>Go library functions used by the bot\<close>

text \<open>
  Go strings are byte sequences, modelled as \<open>string\<close>. The two functions of package
  \<open>strings\<close> that the bot calls are written out; \<open>fmt.Sprintf\<close> with \<open>%s\<close>/\<open>%v\<close> on
  strings is concatenation.
\<close>

fun HasPrefix :: "string \<Rightarrow> string \<Rightarrow> bool" where
  "HasPrefix s [] = True"
| "HasPrefix [] (p # ps) = False"
| "HasPrefix (c # s) (p # ps) = (c = p \<and> HasPrefix s ps)"

fun Contains :: "string \<Rightarrow> string \<Rightarrow> bool" where
  "Contains [] substr = (substr = [])"
| "Contains (c # s) substr = (HasPrefix (c # s) substr \<or> Contains s substr)"

fun Join :: "string list \<Rightarrow> string \<Rightarrow> string" where
  "Join [] sep = []"
| "Join [e] sep = e"
| "Join (e # e' # elems) sep = e @ sep @ Join (e' # elems) sep"

text \<open>
  \<open>time.Time\<close> values are instants on a line; \<open>After\<close> and \<open>Before\<close> are the strict
  comparisons of package \<open>time\<close>.
\<close>

type_synonym Time = int

definition After :: "Time \<Rightarrow> Time \<Rightarrow> bool" where
  "After t u \<longleftrightarrow> u < t"

definition Before :: "Time \<Rightarrow> Time \<Rightarrow> bool" where
  "Before t u \<longleftrightarrow> t < u"

section \<open>Errors\<close>

text \<open>
  The bot builds its errors with package \<open>trace\<close>: \<open>trace.BadParameter\<close> for a policy
  violation and \<open>trace.NotFound\<close>. Both take a format and operands and keep the message
  that \<open>fmt.Sprintf\<close> makes of them; an error value records that message. Where the code
  hands over a literal format, the message is written out: a literal without \<open>%\<close> is its
  own message, and \<open>%s\<close> stands for its string operand. \<open>approved\<close> hands over a message
  that it has composed already, logins included, as the format and with no operand; there
  the formatting is the parameter \<open>Sprintf\<close>, and \<open>formats_plain\<close> is what the Go library
  promises of it: a format without \<open>%\<close> is returned as it is. (In a format with \<open>%\<close>
  the library reads a verb: a \<open>%\<close> at the end of the format comes out as \<open>%!(NOVERB)\<close>.)
  \<open>HostError\<close> stands for a failure reported by the GitHub client.
  \<open>trace.Wrap\<close> records the call site and keeps the kind and the message of the error it
  wraps; call sites are not part of the model.
\<close>

datatype error = BadParameter string | NotFound string | HostError string

definition Wrap :: "error \<Rightarrow> error" where
  "Wrap err = err"


section \<open>Package ci\<close>

text \<open>
  The constants of package \<open>ci\<close> are declared outside the files at hand, so the functions
  below take the package as a parameter.
\<close>

record ci_package =
  RUNCI :: string
  Approved :: string
  GithubCommit :: string
  CheckWorkflow :: string
  AssignWorkflow :: string

section \<open>Reviews (check.go)\<close>

text \<open>
  The struct \<open>review\<close>. \<open>getReviews\<close> builds these values only after
  \<open>checkReviewFields\<close> has seen that no field is nil, so \<open>submittedAt\<close> is a time.
\<close>

record review =
  name :: string
  status :: string
  commitID :: string
  id_review :: int
  submittedAt :: Time

fun hasApproved :: "ci_package \<Rightarrow> string \<Rightarrow> review list \<Rightarrow> string \<times> bool" where
  "hasApproved ci reviewer [] = (reviewer, False)"
| "hasApproved ci reviewer (rv # reviews) =
     (if name rv = reviewer \<and> status rv = Approved ci then ([], True)
      else hasApproved ci reviewer reviews)"

text \<open>The first loop of \<open>approved\<close>, with the slice it appends to as accumulator.\<close>

fun waitingOnApprovalsFrom ::
  "ci_package \<Rightarrow> review list \<Rightarrow> string list \<Rightarrow> string list \<Rightarrow> string list" where
  "waitingOnApprovalsFrom ci mostRecentReviews [] waiting = waiting"
| "waitingOnApprovalsFrom ci mostRecentReviews (requiredReviewer # required) waiting =
     (case hasApproved ci requiredReviewer mostRecentReviews of
        (reviewer, ok) \<Rightarrow>
          if \<not> ok then waitingOnApprovalsFrom ci mostRecentReviews required (waiting @ [reviewer])
          else waitingOnApprovalsFrom ci mostRecentReviews required waiting)"

definition approved ::
  "(string \<Rightarrow> string) \<Rightarrow> ci_package \<Rightarrow> review list \<Rightarrow> string list \<Rightarrow> error option" where
  "approved Sprintf ci mostRecentReviews required =
     (let waiting = waitingOnApprovalsFrom ci mostRecentReviews required [] in
      if length waiting = 1 then
        Some (BadParameter (Sprintf
          (''required reviewers have not yet approved, waiting on an approval from ''
             @ Join waiting [])))
      else if length waiting = 2 then
        Some (BadParameter (Sprintf
          (''required reviewers have not yet approved, waiting for approvals from ''
             @ Join waiting '' and '')))
      else if length waiting > 2 then
        (let lastReviewer = waiting ! (length waiting - 1);
             waiting' = take (length waiting - 1) waiting in
         Some (BadParameter (Sprintf
           (''required reviewers have not yet approved, waiting for approvals from ''
              @ Join waiting' '', '' @ '', and '' @ lastReviewer))))
      else None)"

text \<open>
  \<open>mostRecent\<close>. Its first loop fills the Go map \<open>mostRecentReviews\<close>; the map is the
  second argument here and \<open>Map.empty\<close> at the start.
\<close>

fun mostRecentReviews :: "review list \<Rightarrow> (string \<rightharpoonup> review) \<Rightarrow> (string \<rightharpoonup> review)" where
  "mostRecentReviews [] m = m"
| "mostRecentReviews (rv # currentReviews) m =
     (case m (name rv) of
        None \<Rightarrow> mostRecentReviews currentReviews (m(name rv \<mapsto> rv))
      | Some val \<Rightarrow>
          if After (submittedAt rv) (submittedAt val)
          then mostRecentReviews currentReviews (m(name rv \<mapsto> rv))
          else mostRecentReviews currentReviews m)"

text \<open>
  Its second loop ranges over the map and appends every value to a slice. Go visits the
  keys of a map once each, in an order it does not specify; the order of one run is the
  list \<open>ks\<close>, and \<open>range_order\<close> says what Go promises about it.
\<close>

definition range_order :: "('k \<rightharpoonup> 'v) \<Rightarrow> 'k list \<Rightarrow> bool" where
  "range_order m ks \<longleftrightarrow> distinct ks \<and> set ks = dom m"

fun range_values :: "('k \<rightharpoonup> 'v) \<Rightarrow> 'k list \<Rightarrow> 'v list" where
  "range_values m [] = []"
| "range_values m (k # ks) =
     (case m k of None \<Rightarrow> range_values m ks | Some v \<Rightarrow> v # range_values m ks)"

definition mostRecent :: "string list \<Rightarrow> review list \<Rightarrow> review list" where
  "mostRecent ks currentReviews =
     range_values (mostRecentReviews currentReviews Map.empty) ks"

fun hasNewCommit :: "string \<Rightarrow> review list \<Rightarrow> bool" where
  "hasNewCommit headSHA [] = False"
| "hasNewCommit headSHA (v # revs) =
     (if commitID v \<noteq> headSHA then True else hasNewCommit headSHA revs)"


section \<open>The GitHub client\<close>

text \<open>
  The objects of package \<open>github\<close> that the bot reads. A pointer field that the code tests
  against nil is an \<open>option\<close>; a field that the code dereferences without a test is taken
  to be present, as in every answer of GitHub's REST interface.
\<close>

record SignatureVerification =
  Verified :: "bool option"
  Payload :: "string option"

record Commit =
  Verification :: "SignatureVerification option"

record RepositoryCommit =
  Commit :: Commit

type_synonym CommitFile = string

record CommitsComparison =
  Files :: "CommitFile list"

record User =
  Login :: string

record PullRequestComment =
  AuthorAssociation :: string
  User :: User
  CommitID :: string
  Body :: string

record Workflow =
  ID :: int
  Name :: string

record WorkflowRun =
  ID :: int
  WorkflowID :: int
  HeadBranch :: string
  CreatedAt :: Time

text \<open>
  The calls that change something on the host. The list of the calls made so far is the
  state that the bot's methods pass along: every call of the client sees it, so an answer
  of the host may depend on what was deleted, rerun or dismissed before.
\<close>

datatype request =
    DeleteRun string string int
  | Rerun string string int
  | Dismiss string string int int string

text \<open>
  \<open>github.Client\<close>, one field per call that the bot makes. \<open>DeleteWorkflowRun\<close> is the
  DELETE request that \<open>deleteRun\<close> sends by hand (\<open>NewRequest\<close>, then \<open>Do\<close>) to
  \<open>repos/{owner}/{repo}/actions/runs/{runID}\<close>; the request is identified by owner,
  repository and run, and the text of the URL is not modelled.
\<close>

record Client =
  CompareCommits ::
    "request list \<Rightarrow> string \<Rightarrow> string \<Rightarrow> string \<Rightarrow> string \<Rightarrow> error + CommitsComparison"
  GetCommit :: "request list \<Rightarrow> string \<Rightarrow> string \<Rightarrow> string \<Rightarrow> error + RepositoryCommit"
  DismissReview ::
    "request list \<Rightarrow> string \<Rightarrow> string \<Rightarrow> int \<Rightarrow> int \<Rightarrow> string \<Rightarrow> error option"
  ListWorkflows :: "request list \<Rightarrow> string \<Rightarrow> string \<Rightarrow> error + Workflow list"
  ListWorkflowRunsByID ::
    "request list \<Rightarrow> string \<Rightarrow> string \<Rightarrow> int \<Rightarrow> string \<Rightarrow> error + WorkflowRun list"
  RerunWorkflowByID :: "request list \<Rightarrow> string \<Rightarrow> string \<Rightarrow> int \<Rightarrow> error option"
  DeleteWorkflowRun :: "request list \<Rightarrow> string \<Rightarrow> string \<Rightarrow> int \<Rightarrow> error option"

section \<open>The pull request environment (environment.go)\<close>

record Metadata =
  Author :: string
  RepoName :: string
  RepoOwner :: string
  Number :: int
  HeadSHA :: string
  BaseSHA :: string
  BranchName :: string
  BaseFullName :: string
  HeadFullName :: string

text \<open>
  \<open>PullRequestEnvironment\<close>. The snapshot check.go calls the field \<open>Metadata\<close> by its
  older name \<open>PullRequest\<close>.
\<close>

record PullRequestEnvironment =
  Client :: Client
  Metadata :: Metadata
  Reviewers :: "string \<rightharpoonup> string list"
  defaultReviewers :: "string list"

definition GetReviewersForAuthor :: "PullRequestEnvironment \<Rightarrow> string \<Rightarrow> string list" where
  "GetReviewersForAuthor e user =
     (case Reviewers e user of None \<Rightarrow> defaultReviewers e | Some value \<Rightarrow> value)"

definition IsInternal :: "PullRequestEnvironment \<Rightarrow> string \<Rightarrow> bool" where
  "IsInternal e author = (case Reviewers e author of None \<Rightarrow> False | Some value \<Rightarrow> True)"

text \<open>
  \<open>Bot\<close>. The struct \<open>GithubClient\<close> between the bot and its second client has that
  client as its only field and is left out.
\<close>

record Bot =
  Environment :: PullRequestEnvironment
  GithubClient :: Client

section \<open>Commit verification and invalidation of approvals (check.go)\<close>

fun dismissMessage :: "Metadata \<Rightarrow> string list \<Rightarrow> string" where
  "dismissMessage pr required =
     foldl (\<lambda>buffer reviewer. buffer @ ''@'' @ reviewer)
       ''new commit pushed, please re-review '' required"

definition verifyCommit :: "ci_package \<Rightarrow> Bot \<Rightarrow> request list \<Rightarrow> error option" where
  "verifyCommit ci c log =
     (let pr = Metadata (Environment c) in
      case CompareCommits (Client (Environment c)) log
             (RepoOwner pr) (RepoName pr) (BaseSHA pr) (HeadSHA pr) of
        Inl err \<Rightarrow> Some (Wrap err)
      | Inr comparison \<Rightarrow>
          if length (Files comparison) \<noteq> 0 then Some (BadParameter ''detected file change'')
          else
            (case GetCommit (Client (Environment c)) log
                    (RepoOwner pr) (RepoName pr) (HeadSHA pr) of
               Inl err \<Rightarrow> Some (Wrap err)
             | Inr commit \<Rightarrow>
                 (case Verification (Commit commit) of
                    None \<Rightarrow>
                      Some (BadParameter
                        ''commit is not verified and/or is not signed by GitHub'')
                  | Some verification \<Rightarrow>
                      (case (Payload verification, Verified verification) of
                         (Some payload, Some verified) \<Rightarrow>
                           if Contains payload (GithubCommit ci) \<and> verified then None
                           else Some (BadParameter
                             ''commit is not verified and/or is not signed by GitHub'')
                       | _ \<Rightarrow>
                           Some (BadParameter
                             ''commit is not verified and/or is not signed by GitHub'')))))"

fun invalidateApprovals ::
  "ci_package \<Rightarrow> Bot \<Rightarrow> string \<Rightarrow> review list \<Rightarrow> request list
     \<Rightarrow> request list \<times> error option" where
  "invalidateApprovals ci c msg [] log = (log, None)"
| "invalidateApprovals ci c msg (v # reviews) log =
     (let pr = Metadata (Environment c) in
      if status v = Approved ci then
        (case DismissReview (Client (Environment c)) log
                (RepoOwner pr) (RepoName pr) (Number pr) (id_review v) msg of
           Some err \<Rightarrow>
             (log @ [Dismiss (RepoOwner pr) (RepoName pr) (Number pr) (id_review v) msg],
              Some (Wrap err))
         | None \<Rightarrow>
             invalidateApprovals ci c msg reviews
               (log @ [Dismiss (RepoOwner pr) (RepoName pr) (Number pr) (id_review v) msg]))
      else invalidateApprovals ci c msg reviews log)"

text \<open>
  The two checks of the commit verifier, as the specification words them: the comparison
  of base and head reports no changed file, and the verification metadata of the head
  commit is there, with the marker of the trusted host in its payload and the verified
  flag set.
\<close>

definition spec_diff_empty :: "CommitsComparison \<Rightarrow> bool" where
  "spec_diff_empty comparison \<longleftrightarrow> Files comparison = []"

definition spec_signed_by_host :: "ci_package \<Rightarrow> RepositoryCommit \<Rightarrow> bool" where
  "spec_signed_by_host ci commit \<longleftrightarrow>
     (\<exists>verification payload.
        Verification (Commit commit) = Some verification \<and>
        Payload verification = Some payload \<and>
        Contains payload (GithubCommit ci) \<and>
        Verified verification = Some True)"

section \<open>The comment gate and the workflow runs (bot.go)\<close>

text \<open>The loop over the admins at the end of \<open>commentPermitsRun\<close>.\<close>

fun loginIsAdmin :: "string \<Rightarrow> string list \<Rightarrow> bool" where
  "loginIsAdmin login [] = False"
| "loginIsAdmin login (admin # admins) =
     (if login = admin then True else loginIsAdmin login admins)"

definition commentPermitsRun :: "ci_package \<Rightarrow> Bot \<Rightarrow> PullRequestComment \<Rightarrow> bool" where
  "commentPermitsRun ci c comment =
     (let pr = Metadata (Environment c) in
      if CommitID comment \<noteq> HeadSHA pr then False
      else if \<not> Contains (Body comment) (RUNCI ci) then False
      else
        (let admins = GetReviewersForAuthor (Environment c) [] in
         loginIsAdmin (Login (User comment)) admins))"

definition getWorkflow ::
  "Client \<Rightarrow> request list \<Rightarrow> string \<Rightarrow> string \<Rightarrow> string \<Rightarrow> error + Workflow" where
  "getWorkflow clt log owner repoName workflowName =
     (case ListWorkflows clt log owner repoName of
        Inl err \<Rightarrow> Inl (Wrap err)
      | Inr workflows \<Rightarrow>
          (case find (\<lambda>w. Name w = workflowName) workflows of
             Some w \<Rightarrow> Inr w
           | None \<Rightarrow> Inl (NotFound (''workflow '' @ workflowName @ '' not found''))))"

text \<open>
  \<open>getSortedWorkflowRuns\<close> sorts with \<open>sort.Slice\<close> of the Go library, which promises a
  sorted rearrangement and no stability. The sort is the parameter \<open>srt\<close>; \<open>sorts\<close> is
  the promise, and \<open>byCreatedAt\<close> the comparison that the code hands to it.
\<close>

definition sorts :: "(('a \<Rightarrow> 'a \<Rightarrow> bool) \<Rightarrow> 'a list \<Rightarrow> 'a list) \<Rightarrow> ('a \<Rightarrow> 'a \<Rightarrow> bool) \<Rightarrow> bool" where
  "sorts srt lt \<longleftrightarrow>
     (\<forall>xs. mset (srt lt xs) = mset xs \<and> sorted_wrt (\<lambda>a b. \<not> lt b a) (srt lt xs))"

definition byCreatedAt :: "WorkflowRun \<Rightarrow> WorkflowRun \<Rightarrow> bool" where
  "byCreatedAt run1 run2 = Before (CreatedAt run1) (CreatedAt run2)"

definition getSortedWorkflowRuns ::
  "((WorkflowRun \<Rightarrow> WorkflowRun \<Rightarrow> bool) \<Rightarrow> WorkflowRun list \<Rightarrow> WorkflowRun list)
     \<Rightarrow> Client \<Rightarrow> request list \<Rightarrow> string \<Rightarrow> string \<Rightarrow> string \<Rightarrow> int
     \<Rightarrow> error + WorkflowRun list" where
  "getSortedWorkflowRuns srt clt log owner repoName branchName workflowID =
     (case ListWorkflowRunsByID clt log owner repoName workflowID branchName of
        Inl err \<Rightarrow> Inl (Wrap err)
      | Inr runs \<Rightarrow> Inr (srt byCreatedAt runs))"

definition deleteRun ::
  "Client \<Rightarrow> string \<Rightarrow> string \<Rightarrow> int \<Rightarrow> request list \<Rightarrow> request list \<times> error option" where
  "deleteRun clt owner repo runID log =
     (case DeleteWorkflowRun clt log owner repo runID of
        Some err \<Rightarrow> (log @ [DeleteRun owner repo runID], Some (Wrap err))
      | None \<Rightarrow> (log @ [DeleteRun owner repo runID], None))"

text \<open>
  The loop of \<open>deleteRuns\<close>, from index \<open>i\<close> on. The bound \<open>len(runs)-1\<close> is a signed
  integer, \<open>-1\<close> for the empty slice.
\<close>

function deleteRuns_from ::
  "Client \<Rightarrow> string \<Rightarrow> string \<Rightarrow> WorkflowRun list \<Rightarrow> nat \<Rightarrow> request list
     \<Rightarrow> request list \<times> error option" where
  "deleteRuns_from clt owner repoName runs i log =
     (if int i < int (length runs) - 1 then
        (case deleteRun clt owner repoName (WorkflowRun.ID (runs ! i)) log of
           (log', Some err) \<Rightarrow> (log', Some (Wrap err))
         | (log', None) \<Rightarrow> deleteRuns_from clt owner repoName runs (Suc i) log')
      else (log, None))"
  by pat_completeness auto
termination
  by (relation "measure (\<lambda>(clt, owner, repoName, runs, i, log). length runs - i)") auto

declare deleteRuns_from.simps [simp del]

definition deleteRuns ::
  "Client \<Rightarrow> string \<Rightarrow> string \<Rightarrow> WorkflowRun list \<Rightarrow> request list
     \<Rightarrow> request list \<times> error option" where
  "deleteRuns clt owner repoName runs log = deleteRuns_from clt owner repoName runs 0 log"

definition DismissStaleWorkflowRuns ::
  "((WorkflowRun \<Rightarrow> WorkflowRun \<Rightarrow> bool) \<Rightarrow> WorkflowRun list \<Rightarrow> WorkflowRun list)
     \<Rightarrow> ci_package \<Rightarrow> Bot \<Rightarrow> string \<Rightarrow> string \<Rightarrow> string \<Rightarrow> request list
     \<Rightarrow> request list \<times> error option" where
  "DismissStaleWorkflowRuns srt ci c owner repoName branch log =
     (case getWorkflow (GithubClient c) log owner repoName (CheckWorkflow ci) of
        Inl err \<Rightarrow> (log, Some (Wrap err))
      | Inr workflow \<Rightarrow>
          (case getSortedWorkflowRuns srt (GithubClient c) log owner repoName branch
                  (Workflow.ID workflow) of
             Inl err \<Rightarrow> (log, Some (Wrap err))
           | Inr runs \<Rightarrow>
               (case deleteRuns (GithubClient c) owner repoName runs log of
                  (log', Some err) \<Rightarrow> (log', Some (Wrap err))
                | (log', None) \<Rightarrow> (log', None))))"

definition redoMostRecentRun ::
  "((WorkflowRun \<Rightarrow> WorkflowRun \<Rightarrow> bool) \<Rightarrow> WorkflowRun list \<Rightarrow> WorkflowRun list)
     \<Rightarrow> Bot \<Rightarrow> int \<Rightarrow> request list \<Rightarrow> request list \<times> error option" where
  "redoMostRecentRun srt c workflowID log =
     (let pr = Metadata (Environment c) in
      case getSortedWorkflowRuns srt (GithubClient c) log
             (RepoOwner pr) (RepoName pr) (BranchName pr) workflowID of
        Inl err \<Rightarrow> (log, Some (Wrap err))
      | Inr runs \<Rightarrow>
          if length runs < 1 then (log, Some (NotFound ''workflow run not found''))
          else
            (let targetRun = runs ! (length runs - 1) in
             case RerunWorkflowByID (Client (Environment c)) log
                    (RepoOwner pr) (RepoName pr) (WorkflowRun.ID targetRun) of
               Some err \<Rightarrow>
                 (log @ [Rerun (RepoOwner pr) (RepoName pr) (WorkflowRun.ID targetRun)],
                  Some (Wrap err))
             | None \<Rightarrow>
                 (log @ [Rerun (RepoOwner pr) (RepoName pr) (WorkflowRun.ID targetRun)],
                  None)))"

definition ReRunWorkflows ::
  "((WorkflowRun \<Rightarrow> WorkflowRun \<Rightarrow> bool) \<Rightarrow> WorkflowRun list \<Rightarrow> WorkflowRun list)
     \<Rightarrow> ci_package \<Rightarrow> Bot \<Rightarrow> request list \<Rightarrow> request list \<times> error option" where
  "ReRunWorkflows srt ci c log =
     (let pr = Metadata (Environment c) in
      case getWorkflow (GithubClient c) log (RepoOwner pr) (RepoName pr) (CheckWorkflow ci) of
        Inl err \<Rightarrow> (log, Some (Wrap err))
      | Inr checkWorkflow \<Rightarrow>
          (case redoMostRecentRun srt c (Workflow.ID checkWorkflow) log of
             (log1, Some err) \<Rightarrow> (log1, Some (Wrap err))
           | (log1, None) \<Rightarrow>
               (case getWorkflow (GithubClient c) log1 (RepoOwner pr) (RepoName pr)
                       (AssignWorkflow ci) of
                  Inl err \<Rightarrow> (log1, Some (Wrap err))
                | Inr assignWorkflow \<Rightarrow>
                    (case redoMostRecentRun srt c (Workflow.ID assignWorkflow) log1 of
                       (log2, Some err) \<Rightarrow> (log2, Some (Wrap err))
                     | (log2, None) \<Rightarrow> (log2, None)))))"

section \<open>Requests in order\<close>

text \<open>
  What the specification says of a series of requests to the host, for comparison with
  the loops of \<open>invalidateApprovals\<close> and \<open>deleteRuns\<close>: the requests \<open>req x\<close> are made
  one after the other in the order of the list; the first one that the host answers with
  an error ends the series, and that error is the result.
\<close>

fun spec_requests_in_order ::
  "(request list \<Rightarrow> 'a \<Rightarrow> error option) \<Rightarrow> ('a \<Rightarrow> request) \<Rightarrow> 'a list \<Rightarrow> request list
     \<Rightarrow> request list \<times> error option" where
  "spec_requests_in_order answer req [] log = (log, None)"
| "spec_requests_in_order answer req (x # xs) log =
     (case answer log x of
        Some err \<Rightarrow> (log @ [req x], Some err)
      | None \<Rightarrow> spec_requests_in_order answer req xs (log @ [req x]))"

text \<open>
  The request that dismisses the review \<open>v\<close> of the pull request of the bot with the
  message \<open>msg\<close>, and the answer of the host to it.
\<close>

definition dismiss_request :: "Bot \<Rightarrow> string \<Rightarrow> review \<Rightarrow> request" where
  "dismiss_request c msg v =
     Dismiss (RepoOwner (Metadata (Environment c))) (RepoName (Metadata (Environment c)))
       (Number (Metadata (Environment c))) (id_review v) msg"

definition dismiss_answer :: "Bot \<Rightarrow> string \<Rightarrow> request list \<Rightarrow> review \<Rightarrow> error option" where
  "dismiss_answer c msg log v =
     DismissReview (Client (Environment c)) log
       (RepoOwner (Metadata (Environment c))) (RepoName (Metadata (Environment c)))
       (Number (Metadata (Environment c))) (id_review v) msg"

text \<open>
  The request that deletes a run, and the answer of the host to it.
\<close>

definition delete_request :: "string \<Rightarrow> string \<Rightarrow> WorkflowRun \<Rightarrow> request" where
  "delete_request owner repo run = DeleteRun owner repo (WorkflowRun.ID run)"

definition delete_answer ::
  "Client \<Rightarrow> string \<Rightarrow> string \<Rightarrow> request list \<Rightarrow> WorkflowRun \<Rightarrow> error option" where
  "delete_answer clt owner repo log run = DeleteWorkflowRun clt log owner repo (WorkflowRun.ID run)"

section \<open>Go's insertion sort\<close>

text \<open>
  An instance of \<open>sort.Slice\<close> to run the bot on examples: the insertion sort that
  package \<open>sort\<close> applies to slices of fewer than twelve elements. Each element moves
  left past the elements it is less than; \<open>insert_left\<close> works on the sorted prefix in
  reverse, its last element first.
\<close>

fun insert_left :: "('a \<Rightarrow> 'a \<Rightarrow> bool) \<Rightarrow> 'a \<Rightarrow> 'a list \<Rightarrow> 'a list" where
  "insert_left lt x [] = [x]"
| "insert_left lt x (y # ys) = (if lt x y then y # insert_left lt x ys else x # y # ys)"

definition insertionSort :: "('a \<Rightarrow> 'a \<Rightarrow> bool) \<Rightarrow> 'a list \<Rightarrow> 'a list" where
  "insertionSort lt xs = rev (foldl (\<lambda>prefix x. insert_left lt x prefix) [] xs)"

section \<open>Values for the examples\<close>

text \<open>
  The pull request, the reviewers and the bot of \<open>TestCommentPermitsRun\<close>, and the comment
  of its case "author association is not OWNER". The test leaves the clients nil;
  \<open>no_client\<close> answers every call with an error. In \<open>test_ci\<close> the phrase \<open>run ci\<close> is the
  one that the comment on \<open>commentPermitsRun\<close> and the test name, and \<open>Check\<close> the name in
  the comment on \<open>getWorkflow\<close>; the other strings are sample values.
  \<open>example_Sprintf\<close> is an instance of \<open>Sprintf\<close> with no operand for the formats of the
  examples: it copies the bytes other than \<open>%\<close>, writes \<open>%%\<close> as \<open>%\<close>, a \<open>%\<close> at the
  end of the format as \<open>%!(NOVERB)\<close>, and a \<open>%\<close> before a letter as that verb with its
  operand missing. Flags, widths and argument indexes do not occur in the examples.
\<close>

fun example_Sprintf :: "string \<Rightarrow> string" where
  "example_Sprintf [] = []"
| "example_Sprintf [c] = (if c = CHR ''%'' then ''%!(NOVERB)'' else [c])"
| "example_Sprintf (c # d # format) =
     (if c \<noteq> CHR ''%'' then c # example_Sprintf (d # format)
      else if d = CHR ''%'' then CHR ''%'' # example_Sprintf format
      else ''%!'' @ [d] @ ''(MISSING)'' @ example_Sprintf format)"

definition test_ci :: ci_package where
  "test_ci =
     \<lparr>RUNCI = ''run ci'', Approved = ''APPROVED'',
      GithubCommit = ''committer GitHub <noreply@github.com>'',
      CheckWorkflow = ''Check'', AssignWorkflow = ''Assign''\<rparr>"

definition no_client :: Client where
  "no_client =
     \<lparr>CompareCommits = (\<lambda>log owner repo base head. Inl (HostError ''no client'')),
      GetCommit = (\<lambda>log owner repo sha. Inl (HostError ''no client'')),
      DismissReview = (\<lambda>log owner repo number reviewID msg. Some (HostError ''no client'')),
      ListWorkflows = (\<lambda>log owner repo. Inl (HostError ''no client'')),
      ListWorkflowRunsByID = (\<lambda>log owner repo workflowID branch. Inl (HostError ''no client'')),
      RerunWorkflowByID = (\<lambda>log owner repo runID. Some (HostError ''no client'')),
      DeleteWorkflowRun = (\<lambda>log owner repo runID. Some (HostError ''no client''))\<rparr>"

definition test_pr :: Metadata where
  "test_pr =
     \<lparr>Author = ''Codertocat'', RepoName = ''Hello-World'', RepoOwner = ''Codertocat'',
      Number = 2, HeadSHA = ''ec26c3e57ca3a959ca5aad62de7213c562f8c821'',
      BaseSHA = ''f95f852bd8fca8fcc58a9a2d6c842781e32a215e'', BranchName = ''changes'',
      BaseFullName = [], HeadFullName = []\<rparr>"

definition test_env :: PullRequestEnvironment where
  "test_env =
     \<lparr>Client = no_client, Metadata = test_pr,
      Reviewers = [''foo'' \<mapsto> [''bar'', ''baz''], [] \<mapsto> [''test-user'']],
      defaultReviewers = []\<rparr>"

definition test_bot :: Bot where
  "test_bot = \<lparr>Environment = test_env, GithubClient = no_client\<rparr>"

definition test_comment_collaborator :: PullRequestComment where
  "test_comment_collaborator =
     \<lparr>AuthorAssociation = ''COLLABORATOR'', User = \<lparr>Login = ''test-user''\<rparr>,
      CommitID = ''ec26c3e57ca3a959ca5aad62de7213c562f8c821'',
      Body = ''run ci &&&&&&&& ''\<rparr>"

text \<open>
  A host with the workflows \<open>Check\<close> and \<open>Assign\<close>. \<open>Check\<close> has three runs on the branch
  of the pull request and a later one on another branch; the host lists the runs of a
  workflow newest first, leaves out the runs deleted so far, and applies the branch
  filter when the branch is not the empty string. The head commit has no changed file and
  is signed by the host. Every request succeeds.
\<close>

definition example_runs :: "WorkflowRun list" where
  "example_runs =
     [\<lparr>ID = 4, WorkflowID = 10, HeadBranch = ''other'', CreatedAt = 400\<rparr>,
      \<lparr>ID = 3, WorkflowID = 10, HeadBranch = ''changes'', CreatedAt = 300\<rparr>,
      \<lparr>ID = 2, WorkflowID = 10, HeadBranch = ''changes'', CreatedAt = 200\<rparr>,
      \<lparr>ID = 5, WorkflowID = 20, HeadBranch = ''changes'', CreatedAt = 150\<rparr>,
      \<lparr>ID = 1, WorkflowID = 10, HeadBranch = ''changes'', CreatedAt = 100\<rparr>]"

definition example_client :: Client where
  "example_client =
     \<lparr>CompareCommits = (\<lambda>log owner repo base head. Inr \<lparr>Files = []\<rparr>),
      GetCommit = (\<lambda>log owner repo sha.
        Inr \<lparr>Commit = \<lparr>Verification =
          Some \<lparr>Verified = Some True,
                Payload = Some ''tree 1 committer GitHub <noreply@github.com> 1''\<rparr>\<rparr>\<rparr>),
      DismissReview = (\<lambda>log owner repo number reviewID msg. None),
      ListWorkflows = (\<lambda>log owner repo.
        Inr [\<lparr>Workflow.ID = 10, Name = ''Check''\<rparr>,
             \<lparr>Workflow.ID = 20, Name = ''Assign''\<rparr>]),
      ListWorkflowRunsByID = (\<lambda>log owner repo workflowID branch.
        Inr (filter (\<lambda>run. WorkflowID run = workflowID
                         \<and> (branch = [] \<or> HeadBranch run = branch)
                         \<and> DeleteRun owner repo (WorkflowRun.ID run) \<notin> set log)
               example_runs)),
      RerunWorkflowByID = (\<lambda>log owner repo runID. None),
      DeleteWorkflowRun = (\<lambda>log owner repo runID. None)\<rparr>"

text \<open>
  The environment as \<open>New\<close> builds it from the reviewers
  \<open>{"foo": ["bar", "baz"], "": ["test-user"], "Codertocat": []}\<close>: the default reviewers
  are the entry of the empty string, and the author of the pull request has an entry
  that lists nobody.
\<close>

definition example_env :: PullRequestEnvironment where
  "example_env =
     \<lparr>Client = example_client, Metadata = test_pr,
      Reviewers =
        [''foo'' \<mapsto> [''bar'', ''baz''], [] \<mapsto> [''test-user''], ''Codertocat'' \<mapsto> []],
      defaultReviewers = [''test-user'']\<rparr>"

definition example_bot :: Bot where
  "example_bot = \<lparr>Environment = example_env, GithubClient = example_client\<rparr>"

text \<open>The same host, except that it refuses to dismiss review 2 and to delete run 1.\<close>

definition refusing_client :: Client where
  "refusing_client =
     example_client
       \<lparr>DismissReview := (\<lambda>log owner repo number reviewID msg.
          if reviewID = 2 then Some (HostError ''refused'') else None),
        DeleteWorkflowRun := (\<lambda>log owner repo runID.
          if runID = 1 then Some (HostError ''refused'') else None)\<rparr>"

definition refusing_bot :: Bot where
  "refusing_bot =
     \<lparr>Environment = example_env\<lparr>Client := refusing_client\<rparr>, GithubClient = refusing_client\<rparr>"

definition example_reviews :: "review list" where
  "example_reviews =
     [\<lparr>name = ''bar'', status = ''COMMENTED'', commitID = ''c1'', id_review = 1,
       submittedAt = 10\<rparr>,
      \<lparr>name = ''baz'', status = ''APPROVED'', commitID = ''c1'', id_review = 2,
       submittedAt = 20\<rparr>,
      \<lparr>name = ''bar'', status = ''APPROVED'', commitID = ''c2'', id_review = 3,
       submittedAt = 30\<rparr>]"

text \<open>Two reviews of one reviewer, submitted at the same time.\<close>

definition tied_reviews :: "review list" where
  "tied_reviews =
     [\<lparr>name = ''bar'', status = ''APPROVED'', commitID = ''c1'', id_review = 1,
       submittedAt = 10\<rparr>,
      \<lparr>name = ''bar'', status = ''CHANGES_REQUESTED'', commitID = ''c1'', id_review = 2,
       submittedAt = 10\<rparr>]"

section \<open>The approval evaluator\<close>

lemma hasApproved_eq:
  "hasApproved ci reviewer reviews =
     (if \<exists>rv\<in>set reviews. name rv = reviewer \<and> status rv = Approved ci then ([], True)
      else (reviewer, False))"
  by (induction reviews) auto

lemma waitingOnApprovalsFrom_filter:
  "waitingOnApprovalsFrom ci reviews required waiting =
     waiting @ filter (\<lambda>login. \<not> (\<exists>rv\<in>set reviews. name rv = login \<and> status rv = Approved ci)) required"
  by (induction required arbitrary: waiting) (auto simp: hasApproved_eq)

lemma approved_None_iff:
  "approved Sprintf ci reviews required = None \<longleftrightarrow> waitingOnApprovalsFrom ci reviews required [] = []"
proof (cases "waitingOnApprovalsFrom ci reviews required [] = []")
  case True
  then show ?thesis by (simp add: approved_def)
next
  case False
  then have "length (waitingOnApprovalsFrom ci reviews required []) \<noteq> 0" by simp
  then have "length (waitingOnApprovalsFrom ci reviews required []) = 1
      \<or> length (waitingOnApprovalsFrom ci reviews required []) = 2
      \<or> length (waitingOnApprovalsFrom ci reviews required []) > 2"
    by arith
  then have "approved Sprintf ci reviews required \<noteq> None"
    by (auto simp: approved_def Let_def)
  with False show ?thesis by simp
qed

text \<open>
  C3. \<open>approved\<close> returns nil exactly when every login of the required list has a review
  of that name with the approved status among the reviews it is given. The outcome is the
  same for every rearrangement of the required list, and the list of the reviewers waited
  for is the required list with the approved reviewers left out, in the order of the
  required list.
\<close>

theorem approved_iff_all_required_approved:
  "(approved Sprintf ci reviews required = None \<longleftrightarrow>
      (\<forall>login\<in>set required. \<exists>rv\<in>set reviews. name rv = login \<and> status rv = Approved ci))
   \<and> (\<forall>required'. mset required' = mset required \<longrightarrow>
         (approved Sprintf ci reviews required' = None \<longleftrightarrow> approved Sprintf ci reviews required = None))
   \<and> waitingOnApprovalsFrom ci reviews required [] =
        filter (\<lambda>login. \<not> (\<exists>rv\<in>set reviews. name rv = login \<and> status rv = Approved ci)) required"
proof -
  have a: "approved Sprintf ci reviews req = None \<longleftrightarrow>
      (\<forall>login\<in>set req. \<exists>rv\<in>set reviews. name rv = login \<and> status rv = Approved ci)" for req
    by (simp add: approved_None_iff waitingOnApprovalsFrom_filter filter_empty_conv)
  have b: "approved Sprintf ci reviews required' = None \<longleftrightarrow> approved Sprintf ci reviews required = None"
    if "mset required' = mset required" for required'
    using mset_eq_setD [OF that] by (simp add: a)
  have c: "waitingOnApprovalsFrom ci reviews required [] =
        filter (\<lambda>login. \<not> (\<exists>rv\<in>set reviews. name rv = login \<and> status rv = Approved ci)) required"
    by (simp add: waitingOnApprovalsFrom_filter)
  show ?thesis
    using a [of required] b c by blast
qed

lemma example_mostRecent:
  "mostRecent [''baz'', ''bar''] example_reviews =
     [\<lparr>name = ''baz'', status = ''APPROVED'', commitID = ''c1'', id_review = 2, submittedAt = 20\<rparr>,
      \<lparr>name = ''bar'', status = ''APPROVED'', commitID = ''c2'', id_review = 3, submittedAt = 30\<rparr>]"
  by (simp add: mostRecent_def example_reviews_def After_def)

theorem approved_iff_all_required_approved_witness:
  "approved example_Sprintf test_ci (mostRecent [''baz'', ''bar''] example_reviews) [''bar'', ''baz''] = None
   \<and> approved example_Sprintf test_ci (mostRecent [''baz'', ''bar''] example_reviews) [''baz'', ''bar''] = None
   \<and> approved example_Sprintf test_ci (mostRecent [''baz'', ''bar''] example_reviews) [''qux'', ''bar''] \<noteq> None
   \<and> waitingOnApprovalsFrom test_ci (mostRecent [''baz'', ''bar''] example_reviews)
         [''qux'', ''bar'', ''x''] [] = [''qux'', ''x'']"
proof -
  let ?R = "mostRecent [''baz'', ''bar''] example_reviews"
  note t = approved_iff_all_required_approved [of example_Sprintf test_ci ?R "[''bar'', ''baz'']"]
  have 1: "approved example_Sprintf test_ci ?R [''bar'', ''baz''] = None"
    using t [THEN conjunct1] by (simp add: example_mostRecent test_ci_def)
  have "mset [''baz'', ''bar''] = mset [''bar'', ''baz'']" by simp
  then have 2: "approved example_Sprintf test_ci ?R [''baz'', ''bar''] = None"
    using t [THEN conjunct2, THEN conjunct1, rule_format, of "[''baz'', ''bar'']"] 1 by blast
  have 3: "approved example_Sprintf test_ci ?R [''qux'', ''bar''] \<noteq> None"
    using approved_iff_all_required_approved [of example_Sprintf test_ci ?R "[''qux'', ''bar'']", THEN conjunct1]
    by (simp add: example_mostRecent test_ci_def)
  have 4: "waitingOnApprovalsFrom test_ci ?R [''qux'', ''bar'', ''x''] [] = [''qux'', ''x'']"
    using approved_iff_all_required_approved
            [of example_Sprintf test_ci ?R "[''qux'', ''bar'', ''x'']", THEN conjunct2, THEN conjunct2]
    by (simp add: example_mostRecent test_ci_def)
  from 1 2 3 4 show ?thesis by blast
qed










text \<open>
  A login that ends in \<open>%\<close> shows why the theorem asks for logins without \<open>%\<close>: the
  library reads the end of the composed message as a verb.
\<close>

lemma approved_formats_login:
  "approved example_Sprintf test_ci [] [''50%''] =
     Some (BadParameter
       ''required reviewers have not yet approved, waiting on an approval from 50%!(NOVERB)'')"
  by (simp add: approved_def)

lemma hasNewCommit_iff:
  "hasNewCommit headSHA revs \<longleftrightarrow> (\<exists>v\<in>set revs. commitID v \<noteq> headSHA)"
  by (induction revs) auto

section \<open>The reviewer policy\<close>

text \<open>
  C10. With an empty list of required reviewers \<open>approved\<close> returns nil and waits for
  nobody, whatever the reviews are. An author whose entry in the reviewers is the empty
  list is internal, has the empty list as required reviewers instead of the default ones,
  and passes \<open>approved\<close> without any approving review.
\<close>

theorem empty_required_list_is_approved:
  "approved Sprintf ci reviews [] = None
   \<and> waitingOnApprovalsFrom ci reviews [] [] = []
   \<and> (Reviewers e author = Some [] \<longrightarrow>
         IsInternal e author
         \<and> GetReviewersForAuthor e author = []
         \<and> approved Sprintf ci reviews (GetReviewersForAuthor e author) = None)"
  by (simp add: approved_def IsInternal_def GetReviewersForAuthor_def)

theorem empty_required_list_is_approved_witness:
  "Reviewers example_env ''Codertocat'' = Some []
   \<and> IsInternal example_env ''Codertocat''
   \<and> approved example_Sprintf test_ci [] (GetReviewersForAuthor example_env ''Codertocat'') = None
   \<and> GetReviewersForAuthor example_env ''someone-else'' = [''test-user'']"
  using empty_required_list_is_approved [of example_Sprintf test_ci "[]" example_env "''Codertocat''"]
  by (simp add: example_env_def GetReviewersForAuthor_def)

section \<open>The comment gate\<close>

lemma loginIsAdmin_set: "loginIsAdmin login admins \<longleftrightarrow> login \<in> set admins"
  by (induction admins) auto

lemma commentPermitsRun_iff:
  "commentPermitsRun ci c comment \<longleftrightarrow>
     CommitID comment = HeadSHA (Metadata (Environment c))
     \<and> Contains (Body comment) (RUNCI ci)
     \<and> Login (User comment) \<in> set (GetReviewersForAuthor (Environment c) [])"
  by (simp add: commentPermitsRun_def loginIsAdmin_set)

text \<open>
  C1. \<open>commentPermitsRun\<close> on the comment of the test case "author association is not
  OWNER": the commit is the head of the pull request, the body contains \<open>run ci\<close>, the
  commenter is one of the default reviewers and the association is COLLABORATOR. The
  function permits the run; the test expects it to refuse.
\<close>

theorem commentPermitsRun_ignores_association:
  "commentPermitsRun test_ci test_bot test_comment_collaborator = True
   \<and> AuthorAssociation test_comment_collaborator = ''COLLABORATOR''"
  by (simp add: commentPermitsRun_def test_ci_def test_bot_def test_env_def test_pr_def
      test_comment_collaborator_def GetReviewersForAuthor_def)

section \<open>The review aggregator\<close>

lemma dom_mostRecentReviews:
  "dom (mostRecentReviews revs m) = dom m \<union> name ` set revs"
  by (induction revs arbitrary: m) (auto split: option.splits if_splits)

lemma mostRecentReviews_first_max:
  "mostRecentReviews revs m k = Some out \<Longrightarrow>
     (m k = Some out \<and> (\<forall>r\<in>set revs. name r = k \<longrightarrow> submittedAt r \<le> submittedAt out))
     \<or> (\<exists>pre post. revs = pre @ out # post \<and> name out = k
           \<and> (\<forall>r\<in>set pre. name r = k \<longrightarrow> submittedAt r < submittedAt out)
           \<and> (\<forall>v. m k = Some v \<longrightarrow> submittedAt v < submittedAt out)
           \<and> (\<forall>r\<in>set post. name r = k \<longrightarrow> submittedAt r \<le> submittedAt out))"
proof (induction revs arbitrary: m)
  case Nil
  then show ?case by simp
next
  case (Cons rv revs)
  let ?m' = "case m (name rv) of None \<Rightarrow> m(name rv \<mapsto> rv)
     | Some val \<Rightarrow> if After (submittedAt rv) (submittedAt val) then m(name rv \<mapsto> rv) else m"
  have step: "mostRecentReviews (rv # revs) m = mostRecentReviews revs ?m'"
    by (simp split: option.splits)
  with Cons.prems have res: "mostRecentReviews revs ?m' k = Some out" by simp
  note IH = Cons.IH [OF res]
  show ?case
  proof (cases "name rv = k")
    case False
    then have same: "?m' k = m k" by (simp split: option.splits)
    from IH show ?thesis
    proof
      assume "?m' k = Some out \<and> (\<forall>r\<in>set revs. name r = k \<longrightarrow> submittedAt r \<le> submittedAt out)"
      with same False show ?thesis by auto
    next
      assume "\<exists>pre post. revs = pre @ out # post \<and> name out = k
           \<and> (\<forall>r\<in>set pre. name r = k \<longrightarrow> submittedAt r < submittedAt out)
           \<and> (\<forall>v. ?m' k = Some v \<longrightarrow> submittedAt v < submittedAt out)
           \<and> (\<forall>r\<in>set post. name r = k \<longrightarrow> submittedAt r \<le> submittedAt out)"
      then obtain pre post where p: "revs = pre @ out # post" "name out = k"
        "\<forall>r\<in>set pre. name r = k \<longrightarrow> submittedAt r < submittedAt out"
        "\<forall>v. ?m' k = Some v \<longrightarrow> submittedAt v < submittedAt out"
        "\<forall>r\<in>set post. name r = k \<longrightarrow> submittedAt r \<le> submittedAt out"
        by blast
      have "rv # revs = (rv # pre) @ out # post" using p(1) by simp
      moreover have "\<forall>r\<in>set (rv # pre). name r = k \<longrightarrow> submittedAt r < submittedAt out"
        using p(3) False by simp
      moreover have "\<forall>v. m k = Some v \<longrightarrow> submittedAt v < submittedAt out"
        using p(4) same by simp
      ultimately show ?thesis using p(2,5) by blast
    qed
  next
    case True
    consider (new) "?m' = m(k \<mapsto> rv)" "\<forall>v. m k = Some v \<longrightarrow> submittedAt v < submittedAt rv"
      | (old) val where "?m' = m" "m k = Some val" "submittedAt rv \<le> submittedAt val"
    proof (cases "m k")
      case None
      with True new show ?thesis by simp
    next
      case (Some val)
      show ?thesis
      proof (cases "submittedAt val < submittedAt rv")
        case True
        with Some \<open>name rv = k\<close> new show ?thesis by (simp add: After_def)
      next
        case False
        with Some \<open>name rv = k\<close> old [of val] show ?thesis by (simp add: After_def)
      qed
    qed
    then show ?thesis
    proof cases
      case new
      from IH show ?thesis
      proof
        assume "?m' k = Some out \<and> (\<forall>r\<in>set revs. name r = k \<longrightarrow> submittedAt r \<le> submittedAt out)"
        with new have "out = rv" and le: "\<forall>r\<in>set revs. name r = k \<longrightarrow> submittedAt r \<le> submittedAt out"
          by simp_all
        have "rv # revs = [] @ out # revs" using \<open>out = rv\<close> by simp
        moreover have "\<forall>r\<in>set []. name r = k \<longrightarrow> submittedAt r < submittedAt out" by simp
        moreover have "\<forall>v. m k = Some v \<longrightarrow> submittedAt v < submittedAt out"
          using new(2) \<open>out = rv\<close> by simp
        moreover have "name out = k" using True \<open>out = rv\<close> by simp
        ultimately show ?thesis using le by blast
      next
        assume "\<exists>pre post. revs = pre @ out # post \<and> name out = k
           \<and> (\<forall>r\<in>set pre. name r = k \<longrightarrow> submittedAt r < submittedAt out)
           \<and> (\<forall>v. ?m' k = Some v \<longrightarrow> submittedAt v < submittedAt out)
           \<and> (\<forall>r\<in>set post. name r = k \<longrightarrow> submittedAt r \<le> submittedAt out)"
        then obtain pre post where p: "revs = pre @ out # post" "name out = k"
          "\<forall>r\<in>set pre. name r = k \<longrightarrow> submittedAt r < submittedAt out"
          "\<forall>v. ?m' k = Some v \<longrightarrow> submittedAt v < submittedAt out"
          "\<forall>r\<in>set post. name r = k \<longrightarrow> submittedAt r \<le> submittedAt out"
          by blast
        from p(4) new(1) have lt: "submittedAt rv < submittedAt out" by simp
        have "rv # revs = (rv # pre) @ out # post" using p(1) by simp
        moreover have "\<forall>r\<in>set (rv # pre). name r = k \<longrightarrow> submittedAt r < submittedAt out"
          using p(3) lt by simp
        moreover have "\<forall>v. m k = Some v \<longrightarrow> submittedAt v < submittedAt out"
          using new(2) lt by fastforce
        ultimately show ?thesis using p(2,5) by blast
      qed
    next
      case old
      from IH show ?thesis
      proof
        assume "?m' k = Some out \<and> (\<forall>r\<in>set revs. name r = k \<longrightarrow> submittedAt r \<le> submittedAt out)"
        with old have "m k = Some out" "\<forall>r\<in>set (rv # revs). name r = k \<longrightarrow> submittedAt r \<le> submittedAt out"
          by simp_all
        then show ?thesis by blast
      next
        assume "\<exists>pre post. revs = pre @ out # post \<and> name out = k
           \<and> (\<forall>r\<in>set pre. name r = k \<longrightarrow> submittedAt r < submittedAt out)
           \<and> (\<forall>v. ?m' k = Some v \<longrightarrow> submittedAt v < submittedAt out)
           \<and> (\<forall>r\<in>set post. name r = k \<longrightarrow> submittedAt r \<le> submittedAt out)"
        then obtain pre post where p: "revs = pre @ out # post" "name out = k"
          "\<forall>r\<in>set pre. name r = k \<longrightarrow> submittedAt r < submittedAt out"
          "\<forall>v. ?m' k = Some v \<longrightarrow> submittedAt v < submittedAt out"
          "\<forall>r\<in>set post. name r = k \<longrightarrow> submittedAt r \<le> submittedAt out"
          by blast
        from p(4) old have v: "submittedAt val < submittedAt out" by simp
        with old(3) have lt: "submittedAt rv < submittedAt out" by simp
        have "rv # revs = (rv # pre) @ out # post" using p(1) by simp
        moreover have "\<forall>r\<in>set (rv # pre). name r = k \<longrightarrow> submittedAt r < submittedAt out"
          using p(3) lt by simp
        moreover have "\<forall>v. m k = Some v \<longrightarrow> submittedAt v < submittedAt out"
          using old(2) v by simp
        ultimately show ?thesis using p(2,5) by blast
      qed
    qed
  qed
qed

lemma mostRecentReviews_empty_first_max:
  assumes "mostRecentReviews revs Map.empty k = Some out"
  shows "\<exists>pre post. revs = pre @ out # post \<and> name out = k
           \<and> (\<forall>r\<in>set pre. name r = k \<longrightarrow> submittedAt r < submittedAt out)
           \<and> (\<forall>r\<in>set post. name r = k \<longrightarrow> submittedAt r \<le> submittedAt out)"
  using mostRecentReviews_first_max [OF assms] by simp

lemma set_range_values:
  "set (range_values m ks) = {v. \<exists>k\<in>set ks. m k = Some v}"
  by (induction ks) (auto split: option.splits)

lemma map_name_range_values:
  "\<forall>k v. m k = Some v \<longrightarrow> name v = k \<Longrightarrow>
   map name (range_values m ks) = filter (\<lambda>k. m k \<noteq> None) ks"
  by (induction ks) (auto split: option.splits)



lemma mostRecentReviews_name:
  "mostRecentReviews revs Map.empty k = Some out \<Longrightarrow> name out = k \<and> out \<in> set revs"
  using mostRecentReviews_empty_first_max [of revs k out] by auto

lemma set_mostRecent:
  assumes "range_order (mostRecentReviews revs Map.empty) ks"
  shows "set (mostRecent ks revs) = ran (mostRecentReviews revs Map.empty)"
  using assms by (auto simp: mostRecent_def set_range_values range_order_def ran_def)

lemma names_mostRecent:
  assumes "range_order (mostRecentReviews revs Map.empty) ks"
  shows "map name (mostRecent ks revs) = ks"
proof -
  let ?M = "mostRecentReviews revs Map.empty"
  have "\<forall>k v. ?M k = Some v \<longrightarrow> name v = k"
    using mostRecentReviews_name by blast
  then have "map name (range_values ?M ks) = filter (\<lambda>k. ?M k \<noteq> None) ks"
    by (rule map_name_range_values)
  also have "\<dots> = ks"
    using assms by (auto simp: range_order_def filter_id_conv)
  finally show ?thesis by (simp add: mostRecent_def)
qed

text \<open>
  C5. When the reviews of each reviewer have pairwise different submission times (no two
  reviews agree in name and time), \<open>mostRecent\<close> returns at most one review for each login,
  every review it returns is one of the input, the logins it returns are those of the
  input, and a review of the input is returned exactly when no review of the same
  reviewer was submitted later.
\<close>

theorem mostRecent_latest_per_reviewer:
  assumes times: "distinct (map (\<lambda>rv. (name rv, submittedAt rv)) revs)"
      and order: "range_order (mostRecentReviews revs Map.empty) ks"
  shows "distinct (map name (mostRecent ks revs))
       \<and> set (mostRecent ks revs) \<subseteq> set revs
       \<and> name ` set (mostRecent ks revs) = name ` set revs
       \<and> (\<forall>rv\<in>set revs. rv \<in> set (mostRecent ks revs) \<longleftrightarrow>
            (\<forall>rv'\<in>set revs. name rv' = name rv \<longrightarrow> submittedAt rv' \<le> submittedAt rv))"
proof -
  let ?M = "mostRecentReviews revs Map.empty"
  have out: "set (mostRecent ks revs) = ran ?M"
    using order by (rule set_mostRecent)
  have d: "distinct (map name (mostRecent ks revs))"
    using order names_mostRecent [OF order] by (simp add: range_order_def)
  have sub: "set (mostRecent ks revs) \<subseteq> set revs"
    using mostRecentReviews_name by (auto simp: out ran_def)
  have "set (map name (mostRecent ks revs)) = dom ?M"
    using order names_mostRecent [OF order] by (simp add: range_order_def)
  then have names: "name ` set (mostRecent ks revs) = name ` set revs"
    by (simp add: dom_mostRecentReviews)
  have max: "rv \<in> set (mostRecent ks revs) \<longleftrightarrow>
      (\<forall>rv'\<in>set revs. name rv' = name rv \<longrightarrow> submittedAt rv' \<le> submittedAt rv)"
    if rv: "rv \<in> set revs" for rv
  proof
    assume "rv \<in> set (mostRecent ks revs)"
    then obtain k where "?M k = Some rv" by (auto simp: out ran_def)
    from mostRecentReviews_empty_first_max [OF this]
    show "\<forall>rv'\<in>set revs. name rv' = name rv \<longrightarrow> submittedAt rv' \<le> submittedAt rv"
      by fastforce
  next
    assume top: "\<forall>rv'\<in>set revs. name rv' = name rv \<longrightarrow> submittedAt rv' \<le> submittedAt rv"
    have "name rv \<in> dom ?M" using rv by (simp add: dom_mostRecentReviews)
    then obtain out where o: "?M (name rv) = Some out" by blast
    from mostRecentReviews_empty_first_max [OF o]
    have "out \<in> set revs" "name out = name rv" "submittedAt rv \<le> submittedAt out"
      using rv by fastforce+
    moreover from this top have "submittedAt out \<le> submittedAt rv" by simp
    ultimately have "(name out, submittedAt out) = (name rv, submittedAt rv)" by simp
    moreover have "inj_on (\<lambda>rv. (name rv, submittedAt rv)) (set revs)"
      using times by (simp add: distinct_map)
    ultimately have "out = rv"
      using rv \<open>out \<in> set revs\<close> by (auto dest: inj_onD)
    with o show "rv \<in> set (mostRecent ks revs)" by (auto simp: out ran_def)
  qed
  from d sub names max show ?thesis by blast
qed

theorem mostRecent_latest_per_reviewer_witness:
  "distinct (map (\<lambda>rv. (name rv, submittedAt rv)) example_reviews)
   \<and> range_order (mostRecentReviews example_reviews Map.empty) [''baz'', ''bar'']
   \<and> distinct (map name (mostRecent [''baz'', ''bar''] example_reviews))
   \<and> example_reviews ! 2 \<in> set (mostRecent [''baz'', ''bar''] example_reviews)
   \<and> example_reviews ! 0 \<notin> set (mostRecent [''baz'', ''bar''] example_reviews)"
proof -
  have t: "distinct (map (\<lambda>rv. (name rv, submittedAt rv)) example_reviews)"
    by (simp add: example_reviews_def)
  have o: "range_order (mostRecentReviews example_reviews Map.empty) [''baz'', ''bar'']"
    by (auto simp: range_order_def dom_mostRecentReviews example_reviews_def)
  note inst = mostRecent_latest_per_reviewer [OF t o]
  have m: "mostRecent [''baz'', ''bar''] example_reviews = [example_reviews ! 1, example_reviews ! 2]"
    by (simp add: mostRecent_def example_reviews_def After_def)
  have "example_reviews ! 0 \<notin> set (mostRecent [''baz'', ''bar''] example_reviews)"
    by (simp add: m) (simp add: example_reviews_def)
  moreover have "example_reviews ! 2 \<in> set (mostRecent [''baz'', ''bar''] example_reviews)"
    by (simp add: m)
  ultimately show ?thesis using t o inst by blast
qed

text \<open>
  C6, the claim as stated fails. The two reviews of \<open>tied_reviews\<close> have one reviewer and
  one submission time; \<open>mostRecent\<close> keeps the first of them and not the last.
\<close>

theorem mostRecent_tie_keeps_first:
  "name (tied_reviews ! 0) = name (tied_reviews ! 1)
   \<and> submittedAt (tied_reviews ! 0) = submittedAt (tied_reviews ! 1)
   \<and> tied_reviews ! 0 \<noteq> tied_reviews ! 1
   \<and> range_order (mostRecentReviews tied_reviews Map.empty) [''bar'']
   \<and> mostRecent [''bar''] tied_reviews = [tied_reviews ! 0]
   \<and> tied_reviews ! 1 \<notin> set (mostRecent [''bar''] tied_reviews)"
  by (simp add: tied_reviews_def mostRecent_def After_def range_order_def)

text \<open>
  C6, amended. \<open>mostRecent\<close> keeps one review for every reviewer of the input and none
  for anybody else, each of them a review of the input. The review that it keeps for a
  reviewer is the first one in the list with the latest submission time of that reviewer:
  the reviews of the reviewer before it are strictly older and those after it are not
  newer, so among tied reviews the one seen first is kept. The reviews kept are determined
  by the list: they are the same for every order in which Go ranges over the map.
\<close>

theorem mostRecent_first_seen_wins:
  assumes order: "range_order (mostRecentReviews revs Map.empty) ks"
  shows "(\<forall>out\<in>set (mostRecent ks revs).
            \<exists>pre post. revs = pre @ out # post
              \<and> (\<forall>r\<in>set pre. name r = name out \<longrightarrow> submittedAt r < submittedAt out)
              \<and> (\<forall>r\<in>set post. name r = name out \<longrightarrow> submittedAt r \<le> submittedAt out))
       \<and> (\<forall>ks'. range_order (mostRecentReviews revs Map.empty) ks' \<longrightarrow>
            set (mostRecent ks' revs) = set (mostRecent ks revs))
       \<and> name ` set (mostRecent ks revs) = name ` set revs
       \<and> distinct (map name (mostRecent ks revs))
       \<and> set (mostRecent ks revs) \<subseteq> set revs"
proof -
  let ?M = "mostRecentReviews revs Map.empty"
  have "set (map name (mostRecent ks revs)) = dom ?M"
    using order names_mostRecent [OF order] by (simp add: range_order_def)
  then have names: "name ` set (mostRecent ks revs) = name ` set revs"
    by (simp add: dom_mostRecentReviews)
  have dist: "distinct (map name (mostRecent ks revs))"
    using order names_mostRecent [OF order] by (simp add: range_order_def)
  have sub: "set (mostRecent ks revs) \<subseteq> set revs"
    using mostRecentReviews_name by (auto simp: set_mostRecent [OF order] ran_def)
  have first: "\<exists>pre post. revs = pre @ out # post
              \<and> (\<forall>r\<in>set pre. name r = name out \<longrightarrow> submittedAt r < submittedAt out)
              \<and> (\<forall>r\<in>set post. name r = name out \<longrightarrow> submittedAt r \<le> submittedAt out)"
    if "out \<in> set (mostRecent ks revs)" for out
  proof -
    from that obtain k where k: "?M k = Some out"
      by (auto simp: set_mostRecent [OF order] ran_def)
    from mostRecentReviews_empty_first_max [OF k] show ?thesis by blast
  qed
  have same: "set (mostRecent ks' revs) = set (mostRecent ks revs)"
    if "range_order ?M ks'" for ks'
    by (simp add: set_mostRecent [OF order] set_mostRecent [OF that])
  from first same names dist sub show ?thesis by blast
qed

theorem mostRecent_first_seen_wins_witness:
  "range_order (mostRecentReviews tied_reviews Map.empty) [''bar'']
   \<and> tied_reviews ! 0 \<in> set (mostRecent [''bar''] tied_reviews)
   \<and> tied_reviews = [] @ tied_reviews ! 0 # [tied_reviews ! 1]
   \<and> submittedAt (tied_reviews ! 1) \<le> submittedAt (tied_reviews ! 0)"
proof -
  have o: "range_order (mostRecentReviews tied_reviews Map.empty) [''bar'']"
    by (simp add: tied_reviews_def range_order_def)
  have i: "tied_reviews ! 0 \<in> set (mostRecent [''bar''] tied_reviews)"
    by (simp add: tied_reviews_def mostRecent_def After_def)
  from mostRecent_first_seen_wins [OF o, THEN conjunct1, rule_format, OF i]
  obtain pre post where "tied_reviews = pre @ tied_reviews ! 0 # post"
    "\<forall>r\<in>set post. name r = name (tied_reviews ! 0) \<longrightarrow> submittedAt r \<le> submittedAt (tied_reviews ! 0)"
    by blast
  moreover have "tied_reviews = [] @ tied_reviews ! 0 # [tied_reviews ! 1]"
    by (simp add: tied_reviews_def)
  moreover have "submittedAt (tied_reviews ! 1) \<le> submittedAt (tied_reviews ! 0)"
    by (simp add: tied_reviews_def)
  ultimately show ?thesis using o i by blast
qed

section \<open>The commit verifier\<close>

text \<open>
  C2. \<open>verifyCommit\<close> returns nil exactly when the comparison of base and head succeeds
  with no changed file and the head commit is fetched with verification metadata that is
  present, carries the marker of the host in its payload and has the verified flag set.
  A comparison with a changed file gives the policy violation "detected file change"; an
  empty comparison with a commit that is unverified, or whose verification metadata or
  one of its two fields is missing, gives the policy violation "commit is not verified
  and/or is not signed by GitHub". So when both calls of the host succeed, the result is a
  policy violation exactly when one of the two checks fails.
\<close>

theorem verifyCommit_two_checks:
  assumes "pr = Metadata (Environment c)"
      and "compared = CompareCommits (Client (Environment c)) log
                        (RepoOwner pr) (RepoName pr) (BaseSHA pr) (HeadSHA pr)"
      and "fetched = GetCommit (Client (Environment c)) log
                        (RepoOwner pr) (RepoName pr) (HeadSHA pr)"
  shows "(verifyCommit ci c log = None \<longleftrightarrow>
            (\<exists>comparison commit. compared = Inr comparison \<and> spec_diff_empty comparison
               \<and> fetched = Inr commit \<and> spec_signed_by_host ci commit))
       \<and> (\<forall>comparison. compared = Inr comparison \<and> \<not> spec_diff_empty comparison \<longrightarrow>
            verifyCommit ci c log = Some (BadParameter ''detected file change''))
       \<and> (\<forall>comparison commit. compared = Inr comparison \<and> spec_diff_empty comparison
              \<and> fetched = Inr commit \<and> \<not> spec_signed_by_host ci commit \<longrightarrow>
            verifyCommit ci c log =
              Some (BadParameter ''commit is not verified and/or is not signed by GitHub''))
       \<and> (\<forall>comparison commit. compared = Inr comparison \<and> fetched = Inr commit \<longrightarrow>
            ((\<exists>msg. verifyCommit ci c log = Some (BadParameter msg)) \<longleftrightarrow>
               \<not> (spec_diff_empty comparison \<and> spec_signed_by_host ci commit)))"
proof -
  have none: "verifyCommit ci c log = None \<longleftrightarrow>
            (\<exists>comparison commit. compared = Inr comparison \<and> spec_diff_empty comparison
               \<and> fetched = Inr commit \<and> spec_signed_by_host ci commit)"
    unfolding assms verifyCommit_def spec_diff_empty_def spec_signed_by_host_def Let_def
    by (auto split: sum.splits option.splits)
  have diff: "verifyCommit ci c log = Some (BadParameter ''detected file change'')"
    if "compared = Inr comparison" "\<not> spec_diff_empty comparison" for comparison
    using that unfolding assms verifyCommit_def spec_diff_empty_def Let_def
    by (simp split: sum.splits)
  have sig: "verifyCommit ci c log =
              Some (BadParameter ''commit is not verified and/or is not signed by GitHub'')"
    if "compared = Inr comparison" "spec_diff_empty comparison"
       "fetched = Inr commit" "\<not> spec_signed_by_host ci commit" for comparison commit
    using that unfolding assms verifyCommit_def spec_diff_empty_def spec_signed_by_host_def Let_def
    by (auto split: sum.splits option.splits)
  have pol: "(\<exists>msg. verifyCommit ci c log = Some (BadParameter msg)) \<longleftrightarrow>
               \<not> (spec_diff_empty comparison \<and> spec_signed_by_host ci commit)"
    if "compared = Inr comparison" "fetched = Inr commit" for comparison commit
  proof (cases "spec_diff_empty comparison \<and> spec_signed_by_host ci commit")
    case True
    with that none have "verifyCommit ci c log = None" by blast
    with True show ?thesis by simp
  next
    case False
    with that diff sig show ?thesis by blast
  qed
  from none diff sig pol show ?thesis by blast
qed

theorem verifyCommit_two_checks_witness:
  "CompareCommits (Client (Environment example_bot)) [] (RepoOwner test_pr) (RepoName test_pr)
       (BaseSHA test_pr) (HeadSHA test_pr) = Inr \<lparr>Files = []\<rparr>
   \<and> spec_diff_empty \<lparr>Files = []\<rparr>
   \<and> \<not> spec_diff_empty \<lparr>Files = [''README.md'']\<rparr>
   \<and> verifyCommit test_ci example_bot [] = None
   \<and> verifyCommit test_ci
        (example_bot\<lparr>Environment := example_env\<lparr>Client := example_client
           \<lparr>CompareCommits := \<lambda>log owner repo base head. Inr \<lparr>Files = [''README.md'']\<rparr>\<rparr>\<rparr>\<rparr>) []
       = Some (BadParameter ''detected file change'')"
proof -
  let ?commit = "\<lparr>Commit = \<lparr>Verification =
          Some \<lparr>Verified = Some True,
                Payload = Some ''tree 1 committer GitHub <noreply@github.com> 1''\<rparr>\<rparr>\<rparr>"
  let ?bot2 = "example_bot\<lparr>Environment := example_env\<lparr>Client := example_client
           \<lparr>CompareCommits := \<lambda>log owner repo base head. Inr \<lparr>Files = [''README.md'']\<rparr>\<rparr>\<rparr>\<rparr>"
  have pr: "test_pr = Metadata (Environment example_bot)"
    by (simp add: example_bot_def example_env_def)
  have cmp: "CompareCommits (Client (Environment example_bot)) [] (RepoOwner test_pr) (RepoName test_pr)
       (BaseSHA test_pr) (HeadSHA test_pr) = Inr \<lparr>Files = []\<rparr>"
    by (simp add: example_bot_def example_env_def example_client_def)
  have get: "GetCommit (Client (Environment example_bot)) [] (RepoOwner test_pr) (RepoName test_pr)
       (HeadSHA test_pr) = Inr ?commit"
    by (simp add: example_bot_def example_env_def example_client_def)
  have d: "spec_diff_empty \<lparr>Files = []\<rparr>" by (simp add: spec_diff_empty_def)
  have s: "spec_signed_by_host test_ci ?commit"
    by (simp add: spec_signed_by_host_def test_ci_def)
  have ok: "verifyCommit test_ci example_bot [] = None"
    using verifyCommit_two_checks [OF pr refl refl, of test_ci, THEN conjunct1] cmp get d s
    by blast
  have pr2: "test_pr = Metadata (Environment ?bot2)"
    by (simp add: example_bot_def example_env_def)
  have cmp2: "CompareCommits (Client (Environment ?bot2)) [] (RepoOwner test_pr) (RepoName test_pr)
       (BaseSHA test_pr) (HeadSHA test_pr) = Inr \<lparr>Files = [''README.md'']\<rparr>"
    by (simp add: example_bot_def example_env_def example_client_def)
  have d2: "\<not> spec_diff_empty \<lparr>Files = [''README.md'']\<rparr>" by (simp add: spec_diff_empty_def)
  have bad: "verifyCommit test_ci ?bot2 [] = Some (BadParameter ''detected file change'')"
    using verifyCommit_two_checks [OF pr2 refl refl, of test_ci, THEN conjunct2, THEN conjunct1]
      cmp2 d2 by blast
  from cmp d d2 ok bad show ?thesis by blast
qed

section \<open>The approval invalidator\<close>

lemma spec_requests_in_order_prefix:
  "spec_requests_in_order answer req xs log = (log', res) \<Longrightarrow>
     \<exists>n\<le>length xs. log' = log @ map req (take n xs)"
proof (induction xs arbitrary: log)
  case Nil
  then show ?case by simp
next
  case (Cons x xs)
  show ?case
  proof (cases "answer log x")
    case (Some err)
    with Cons.prems have "log' = log @ map req (take 1 (x # xs))" by simp
    then show ?thesis by (intro exI [of _ 1]) simp
  next
    case None
    with Cons.prems have "spec_requests_in_order answer req xs (log @ [req x]) = (log', res)" by simp
    from Cons.IH [OF this] obtain n where "n \<le> length xs" "log' = (log @ [req x]) @ map req (take n xs)"
      by blast
    then have "Suc n \<le> length (x # xs)" "log' = log @ map req (take (Suc n) (x # xs))" by simp_all
    then show ?thesis by blast
  qed
qed

lemma spec_requests_in_order_None:
  "spec_requests_in_order answer req xs log = (log', None) \<Longrightarrow>
     log' = log @ map req xs
     \<and> (\<forall>pre x post. xs = pre @ x # post \<longrightarrow> answer (log @ map req pre) x = None)"
proof (induction xs arbitrary: log)
  case Nil
  then show ?case by simp
next
  case (Cons y ys)
  from Cons.prems have a: "answer log y = None"
    by (cases "answer log y") auto
  with Cons.prems have "spec_requests_in_order answer req ys (log @ [req y]) = (log', None)" by simp
  from Cons.IH [OF this] have l: "log' = (log @ [req y]) @ map req ys"
    and r: "\<And>pre x post. ys = pre @ x # post \<Longrightarrow> answer ((log @ [req y]) @ map req pre) x = None"
    by blast+
  have "answer (log @ map req pre) x = None" if "y # ys = pre @ x # post" for pre x post
  proof (cases pre)
    case Nil
    with that a show ?thesis by simp
  next
    case (Cons p ps)
    with that have "p = y" "ys = ps @ x # post" by simp_all
    with r [of ps x post] Cons show ?thesis by simp
  qed
  with l show ?case by simp
qed

lemma spec_requests_in_order_Some:
  "spec_requests_in_order answer req xs log = (log', Some err) \<Longrightarrow>
     \<exists>pre x post. xs = pre @ x # post \<and> log' = log @ map req (pre @ [x])
        \<and> answer (log @ map req pre) x = Some err
        \<and> (\<forall>pre' y post'. pre = pre' @ y # post' \<longrightarrow> answer (log @ map req pre') y = None)"
proof (induction xs arbitrary: log)
  case Nil
  then show ?case by simp
next
  case (Cons z zs)
  show ?case
  proof (cases "answer log z")
    case (Some e)
    with Cons.prems have "e = err" "log' = log @ map req ([] @ [z])" by simp_all
    with Some have "z # zs = [] @ z # zs \<and> log' = log @ map req ([] @ [z])
        \<and> answer (log @ map req []) z = Some err
        \<and> (\<forall>pre' y post'. [] = pre' @ y # post' \<longrightarrow> answer (log @ map req pre') y = None)"
      by simp
    then show ?thesis by blast
  next
    case None
    with Cons.prems have "spec_requests_in_order answer req zs (log @ [req z]) = (log', Some err)" by simp
    from Cons.IH [OF this] obtain pre x post where p: "zs = pre @ x # post"
      "log' = (log @ [req z]) @ map req (pre @ [x])"
      "answer ((log @ [req z]) @ map req pre) x = Some err"
      "\<And>pre' y post'. pre = pre' @ y # post' \<Longrightarrow> answer ((log @ [req z]) @ map req pre') y = None"
      by blast
    have earlier: "answer (log @ map req pre') y = None" if "z # pre = pre' @ y # post'" for pre' y post'
    proof (cases pre')
      case Nil
      with that None show ?thesis by simp
    next
      case (Cons q qs)
      with that have "q = z" "pre = qs @ y # post'" by simp_all
      with p(4) [of qs y post'] Cons show ?thesis by simp
    qed
    from p have "z # zs = (z # pre) @ x # post \<and> log' = log @ map req ((z # pre) @ [x])
        \<and> answer (log @ map req (z # pre)) x = Some err"
      by simp
    with earlier show ?thesis by blast
  qed
qed

lemma invalidateApprovals_spec_in_order:
  "invalidateApprovals ci c msg reviews log =
     spec_requests_in_order (dismiss_answer c msg) (dismiss_request c msg)
       (filter (\<lambda>v. status v = Approved ci) reviews) log"
  by (induction reviews arbitrary: log)
     (auto simp: dismiss_answer_def dismiss_request_def Let_def Wrap_def split: option.splits)

lemma dismissMessage_concat:
  "foldl (\<lambda>buffer reviewer. buffer @ ''@'' @ reviewer) buf required =
     buf @ concat (map (\<lambda>reviewer. ''@'' @ reviewer) required)"
  by (induction required arbitrary: buf) simp_all


lemma dismissMessage_eq:
  "dismissMessage pr required =
     ''new commit pushed, please re-review '' @ concat (map (\<lambda>reviewer. ''@'' @ reviewer) required)"
  by (simp only: dismissMessage.simps dismissMessage_concat)

text \<open>
  C9. \<open>invalidateApprovals\<close> with the message of \<open>dismissMessage\<close>: the message is
  "new commit pushed, please re-review " followed by an @-mention of each required
  reviewer. The dismissals it asks for are those of the reviews with the approved status,
  in the order of the list and each with that message, up to some point. When it returns
  nil it has asked for all of them and the host refused none. When it returns an error,
  that error is the answer of the host to the last dismissal asked for, all dismissals
  before that one succeeded, and the approved reviews after it were not asked for.
\<close>

theorem invalidateApprovals_dismisses_approved:
  assumes "msg = dismissMessage (Metadata (Environment c)) required"
      and "approvals = filter (\<lambda>v. status v = Approved ci) reviews"
      and "invalidateApprovals ci c msg reviews log = (log', result)"
  shows "msg = ''new commit pushed, please re-review ''
                 @ concat (map (\<lambda>reviewer. ''@'' @ reviewer) required)
       \<and> (\<exists>n\<le>length approvals. log' = log @ map (dismiss_request c msg) (take n approvals))
       \<and> (result = None \<longrightarrow>
            log' = log @ map (dismiss_request c msg) approvals
            \<and> (\<forall>pre v post. approvals = pre @ v # post \<longrightarrow>
                  dismiss_answer c msg (log @ map (dismiss_request c msg) pre) v = None))
       \<and> (\<forall>err. result = Some err \<longrightarrow>
            (\<exists>pre v post. approvals = pre @ v # post
               \<and> log' = log @ map (dismiss_request c msg) (pre @ [v])
               \<and> (\<exists>err'. dismiss_answer c msg (log @ map (dismiss_request c msg) pre) v = Some err'
                     \<and> err = Wrap err')
               \<and> (\<forall>pre' w post'. pre = pre' @ w # post' \<longrightarrow>
                     dismiss_answer c msg (log @ map (dismiss_request c msg) pre') w = None)))"
proof -
  have run: "spec_requests_in_order (dismiss_answer c msg) (dismiss_request c msg) approvals log
      = (log', result)"
    using assms(2,3) by (simp add: invalidateApprovals_spec_in_order)
  have m: "msg = ''new commit pushed, please re-review ''
                 @ concat (map (\<lambda>reviewer. ''@'' @ reviewer) required)"
    unfolding assms(1) by (rule dismissMessage_eq)
  have p: "\<exists>n\<le>length approvals. log' = log @ map (dismiss_request c msg) (take n approvals)"
    using run by (rule spec_requests_in_order_prefix)
  have n: "log' = log @ map (dismiss_request c msg) approvals
            \<and> (\<forall>pre v post. approvals = pre @ v # post \<longrightarrow>
                  dismiss_answer c msg (log @ map (dismiss_request c msg) pre) v = None)"
    if "result = None"
    using run that spec_requests_in_order_None [of "dismiss_answer c msg" "dismiss_request c msg" approvals log log']
    by simp
  have e: "\<exists>pre v post. approvals = pre @ v # post
               \<and> log' = log @ map (dismiss_request c msg) (pre @ [v])
               \<and> (\<exists>err'. dismiss_answer c msg (log @ map (dismiss_request c msg) pre) v = Some err'
                     \<and> err = Wrap err')
               \<and> (\<forall>pre' w post'. pre = pre' @ w # post' \<longrightarrow>
                     dismiss_answer c msg (log @ map (dismiss_request c msg) pre') w = None)"
    if "result = Some err" for err
  proof -
    from run that have "spec_requests_in_order (dismiss_answer c msg) (dismiss_request c msg) approvals log
      = (log', Some err)" by simp
    from spec_requests_in_order_Some [OF this] obtain pre v post where
      "approvals = pre @ v # post" "log' = log @ map (dismiss_request c msg) (pre @ [v])"
      "dismiss_answer c msg (log @ map (dismiss_request c msg) pre) v = Some err"
      "\<forall>pre' w post'. pre = pre' @ w # post' \<longrightarrow>
          dismiss_answer c msg (log @ map (dismiss_request c msg) pre') w = None"
      by blast
    moreover have "err = Wrap err" by (simp add: Wrap_def)
    ultimately show ?thesis by blast
  qed
  from m p n e show ?thesis by blast
qed

theorem invalidateApprovals_dismisses_approved_witness:
  "invalidateApprovals test_ci example_bot
      (dismissMessage (Metadata (Environment example_bot)) [''bar'', ''baz''])
      example_reviews []
    = ([Dismiss ''Codertocat'' ''Hello-World'' 2 2 ''new commit pushed, please re-review @bar@baz'',
        Dismiss ''Codertocat'' ''Hello-World'' 2 3 ''new commit pushed, please re-review @bar@baz''],
       None)
   \<and> filter (\<lambda>v. status v = Approved test_ci) example_reviews
       = [example_reviews ! 1, example_reviews ! 2]
   \<and> dismissMessage (Metadata (Environment example_bot)) [''bar'', ''baz'']
       = ''new commit pushed, please re-review @bar@baz''
   \<and> invalidateApprovals test_ci refusing_bot
        (dismissMessage (Metadata (Environment refusing_bot)) [''bar'', ''baz''])
        example_reviews []
    = ([Dismiss ''Codertocat'' ''Hello-World'' 2 2 ''new commit pushed, please re-review @bar@baz''],
       Some (HostError ''refused''))"
proof -
  let ?msg = "dismissMessage (Metadata (Environment example_bot)) [''bar'', ''baz'']"
  have r: "invalidateApprovals test_ci example_bot ?msg example_reviews []
    = ([Dismiss ''Codertocat'' ''Hello-World'' 2 2 ''new commit pushed, please re-review @bar@baz'',
        Dismiss ''Codertocat'' ''Hello-World'' 2 3 ''new commit pushed, please re-review @bar@baz''],
       None)"
    by (simp add: example_bot_def example_env_def example_client_def example_reviews_def
        test_ci_def test_pr_def)
  have f: "filter (\<lambda>v. status v = Approved test_ci) example_reviews
       = [example_reviews ! 1, example_reviews ! 2]"
    by (simp add: example_reviews_def test_ci_def)
  from invalidateApprovals_dismisses_approved [OF refl refl r]
  have "?msg = ''new commit pushed, please re-review ''
                 @ concat (map (\<lambda>reviewer. ''@'' @ reviewer) [''bar'', ''baz''])"
    by blast
  then have m: "?msg = ''new commit pushed, please re-review @bar@baz''" by simp
  have refused: "invalidateApprovals test_ci refusing_bot
        (dismissMessage (Metadata (Environment refusing_bot)) [''bar'', ''baz''])
        example_reviews []
    = ([Dismiss ''Codertocat'' ''Hello-World'' 2 2 ''new commit pushed, please re-review @bar@baz''],
       Some (HostError ''refused''))"
    by (simp add: refusing_bot_def refusing_client_def example_env_def example_client_def
        example_reviews_def test_ci_def test_pr_def Wrap_def)
  from r f m refused show ?thesis by blast
qed

section \<open>Stale workflow runs\<close>

lemma deleteRuns_from_in_order:
  "deleteRuns_from clt owner repo runs i log =
     spec_requests_in_order (delete_answer clt owner repo) (delete_request owner repo)
       (drop i (butlast runs)) log"
proof (induction clt owner repo runs i log rule: deleteRuns_from.induct)
  case (1 clt owner repo runs i log)
  show ?case
  proof (cases "int i < int (length runs) - 1")
    case False
    then have "drop i (butlast runs) = []" by simp
    with False show ?thesis by (subst deleteRuns_from.simps) simp
  next
    case True
    then have i: "i < length (butlast runs)" by simp
    then have d: "drop i (butlast runs) = runs ! i # drop (Suc i) (butlast runs)"
      by (simp add: Cons_nth_drop_Suc [symmetric] nth_butlast)
    show ?thesis
    proof (cases "DeleteWorkflowRun clt log owner repo (WorkflowRun.ID (runs ! i))")
      case (Some err)
      with True show ?thesis
        by (subst deleteRuns_from.simps)
           (simp add: d deleteRun_def delete_answer_def delete_request_def Wrap_def)
    next
      case None
      then have dr: "deleteRun clt owner repo (WorkflowRun.ID (runs ! i)) log
          = (log @ [DeleteRun owner repo (WorkflowRun.ID (runs ! i))], None)"
        by (simp add: deleteRun_def)
      from "1.IH" [OF True dr [symmetric] refl]
      have "deleteRuns_from clt owner repo runs (Suc i) (log @ [DeleteRun owner repo (WorkflowRun.ID (runs ! i))])
          = spec_requests_in_order (delete_answer clt owner repo) (delete_request owner repo)
              (drop (Suc i) (butlast runs)) (log @ [DeleteRun owner repo (WorkflowRun.ID (runs ! i))])" .
      with True None dr show ?thesis
        by (subst deleteRuns_from.simps) (simp add: d delete_answer_def delete_request_def)
    qed
  qed
qed

lemma deleteRuns_in_order:
  "deleteRuns clt owner repo runs log =
     spec_requests_in_order (delete_answer clt owner repo) (delete_request owner repo) (butlast runs) log"
  by (simp add: deleteRuns_def deleteRuns_from_in_order)

lemma byCreatedAt_not: "\<not> byCreatedAt b a \<longleftrightarrow> CreatedAt a \<le> CreatedAt b"
  by (auto simp: byCreatedAt_def Before_def)

lemma sorts_byCreatedAt:
  assumes "sorts srt byCreatedAt"
  shows "mset (srt byCreatedAt runs) = mset runs"
    and "sorted (map CreatedAt (srt byCreatedAt runs))"
  using assms by (simp_all add: sorts_def byCreatedAt_not sorted_wrt_map)

lemma sorted_last_max:
  assumes "sorted (map f xs)" "x \<in> set xs"
  shows "f x \<le> f (last xs)"
proof -
  from assms(2) have ne: "xs \<noteq> []" by auto
  then have xs: "xs = butlast xs @ [last xs]" by simp
  from assms(1) have "sorted (map f (butlast xs @ [last xs]))" using xs by simp
  then have "\<forall>y\<in>set (butlast xs). f y \<le> f (last xs)"
    by (simp add: sorted_append)
  moreover from assms(2) xs have "x \<in> set (butlast xs) \<or> x = last xs"
    by (metis Un_iff insert_iff list.set(2) set_append empty_iff list.set(1))
  ultimately show ?thesis by auto
qed

lemma distinct_last_notin_butlast:
  assumes "distinct (map f xs)" "xs \<noteq> []"
  shows "f (last xs) \<notin> f ` set (butlast xs)"
proof -
  from assms(2) have "xs = butlast xs @ [last xs]" by simp
  then have "distinct (map f (butlast xs) @ [f (last xs)])"
    using assms(1) by (metis list.simps(8,9) map_append)
  then show ?thesis by simp
qed

lemma sorted_three:
  assumes "sorted (map CreatedAt s)" "mset s = {#r1, r2, r3#}"
    "CreatedAt r1 < CreatedAt r2" "CreatedAt r2 < CreatedAt r3"
  shows "s = [r1, r2, r3]"
proof -
  have "mset (map CreatedAt s) = mset [CreatedAt r1, CreatedAt r2, CreatedAt r3]"
    using assms(2) by simp
  moreover have "sorted [CreatedAt r1, CreatedAt r2, CreatedAt r3]"
    using assms(3,4) by simp
  ultimately have times: "map CreatedAt s = [CreatedAt r1, CreatedAt r2, CreatedAt r3]"
    using assms(1) by (metis properties_for_sort)
  then obtain a b c where s: "s = [a, b, c]"
    by (auto simp: map_eq_Cons_conv)
  from assms(2) have "set_mset (mset s) = set_mset {#r1, r2, r3#}" by simp
  then have "set s = {r1, r2, r3}" by simp
  with s have mem: "a = r1 \<or> a = r2 \<or> a = r3" "b = r1 \<or> b = r2 \<or> b = r3"
    "c = r1 \<or> c = r2 \<or> c = r3" by auto
  from s times have ta: "CreatedAt a = CreatedAt r1" and tb: "CreatedAt b = CreatedAt r2"
    and tc: "CreatedAt c = CreatedAt r3" by simp_all
  from mem(1) ta assms(3,4) have "a = r1" by (elim disjE; simp)
  moreover from mem(2) tb assms(3,4) have "b = r2" by (elim disjE; simp)
  moreover from mem(3) tc assms(3,4) have "c = r3" by (elim disjE; simp)
  ultimately show ?thesis using s by simp
qed


lemma mset_insert_left: "mset (insert_left lt x ys) = add_mset x (mset ys)"
  by (induction ys) auto

lemma set_insert_left: "set (insert_left lt x ys) = insert x (set ys)"
  using arg_cong [OF mset_insert_left, of set_mset] by simp

lemma sorted_insert_left:
  "sorted_wrt (\<lambda>a b. CreatedAt b \<le> CreatedAt a) ys \<Longrightarrow>
   sorted_wrt (\<lambda>a b. CreatedAt b \<le> CreatedAt a) (insert_left byCreatedAt x ys)"
  by (induction ys) (auto simp: set_insert_left byCreatedAt_def Before_def)

lemma foldl_insert_left:
  "mset (foldl (\<lambda>prefix x. insert_left lt x prefix) acc xs) = mset acc + mset xs"
  by (induction xs arbitrary: acc) (simp_all add: mset_insert_left)

lemma foldl_insert_left_sorted:
  "sorted_wrt (\<lambda>a b. CreatedAt b \<le> CreatedAt a) acc \<Longrightarrow>
   sorted_wrt (\<lambda>a b. CreatedAt b \<le> CreatedAt a)
     (foldl (\<lambda>prefix x. insert_left byCreatedAt x prefix) acc xs)"
  by (induction xs arbitrary: acc) (simp_all add: sorted_insert_left)

lemma insertionSort_sorts: "sorts insertionSort byCreatedAt"
proof -
  have "mset (insertionSort byCreatedAt xs) = mset xs" for xs
    by (simp add: insertionSort_def foldl_insert_left)
  moreover have "sorted_wrt (\<lambda>a b. \<not> byCreatedAt b a) (insertionSort byCreatedAt xs)" for xs
    using foldl_insert_left_sorted [of "[]" xs]
    by (simp add: insertionSort_def sorted_wrt_rev byCreatedAt_not)
  ultimately show ?thesis by (simp add: sorts_def)
qed

text \<open>
  C7. \<open>DismissStaleWorkflowRuns\<close>, once the workflow is resolved and its runs on the branch
  are fetched, with run identifiers that differ. The runs are sorted by creation time, so
  the last one has the latest creation time of all. The deletions asked for are those of
  the sorted runs but the last, in order, up to some point; the last run is never handed
  to \<open>deleteRun\<close>, whatever the outcome. When the method returns nil, every run but the
  last was handed to \<open>deleteRun\<close>: the runs deleted are exactly the runs fetched without
  the most recent one, and for three runs created at \<open>t1 < t2 < t3\<close> they are the runs of
  \<open>t1\<close> and \<open>t2\<close>. With at most one run nothing is deleted and the result is nil. When
  the method returns an error, it is the answer of the host to the last deletion asked
  for, and the runs after that one were not handed to \<open>deleteRun\<close>.
\<close>

theorem DismissStaleWorkflowRuns_keeps_most_recent:
  assumes srt: "sorts srt byCreatedAt"
      and wf: "getWorkflow (GithubClient c) log owner repoName (CheckWorkflow ci) = Inr workflow"
      and fetched: "ListWorkflowRunsByID (GithubClient c) log owner repoName
                      (Workflow.ID workflow) branch = Inr runs"
      and ids: "distinct (map WorkflowRun.ID runs)"
      and sorted_runs: "sorted_runs = srt byCreatedAt runs"
      and res: "DismissStaleWorkflowRuns srt ci c owner repoName branch log = (log', result)"
  shows "mset sorted_runs = mset runs
       \<and> (\<forall>run\<in>set runs. CreatedAt run \<le> CreatedAt (last sorted_runs))
       \<and> (\<exists>n\<le>length (butlast sorted_runs).
            log' = log @ map (delete_request owner repoName) (take n (butlast sorted_runs)))
       \<and> (\<forall>reqs. log' = log @ reqs \<and> runs \<noteq> [] \<longrightarrow>
            delete_request owner repoName (last sorted_runs) \<notin> set reqs)
       \<and> (result = None \<longrightarrow>
            log' = log @ map (delete_request owner repoName) (butlast sorted_runs)
            \<and> (\<forall>reqs. log' = log @ reqs \<and> runs \<noteq> [] \<longrightarrow>
                  set reqs = delete_request owner repoName ` (set runs - {last sorted_runs})))
       \<and> (length runs \<le> 1 \<longrightarrow> log' = log \<and> result = None)
       \<and> (\<forall>r1 r2 r3. mset runs = {#r1, r2, r3#} \<and> CreatedAt r1 < CreatedAt r2
              \<and> CreatedAt r2 < CreatedAt r3 \<and> result = None \<longrightarrow>
            log' = log @ [delete_request owner repoName r1, delete_request owner repoName r2])
       \<and> (\<forall>err. result = Some err \<longrightarrow>
            (\<exists>pre run post. butlast sorted_runs = pre @ run # post
               \<and> log' = log @ map (delete_request owner repoName) (pre @ [run])
               \<and> (\<exists>err'. delete_answer (GithubClient c) owner repoName
                            (log @ map (delete_request owner repoName) pre) run = Some err'
                     \<and> err = Wrap (Wrap (Wrap err')))))"
proof -
  let ?del = "delete_request owner repoName"
  let ?ans = "delete_answer (GithubClient c) owner repoName"
  have ms: "mset sorted_runs = mset runs" and so: "sorted (map CreatedAt sorted_runs)"
    using sorts_byCreatedAt [OF srt] sorted_runs by simp_all
  from ms have st: "set sorted_runs = set runs" by (rule mset_eq_setD)
  from ms have len: "length sorted_runs = length runs" by (rule mset_eq_length)
  have got: "getSortedWorkflowRuns srt (GithubClient c) log owner repoName branch
      (Workflow.ID workflow) = Inr sorted_runs"
    using fetched sorted_runs by (simp add: getSortedWorkflowRuns_def)
  have run: "spec_requests_in_order ?ans ?del (butlast sorted_runs) log = (log', result)"
    using res wf got
    by (cases "spec_requests_in_order ?ans ?del (butlast sorted_runs) log")
       (auto simp: DismissStaleWorkflowRuns_def deleteRuns_in_order Wrap_def split: option.splits)
  have mx: "\<forall>run\<in>set runs. CreatedAt run \<le> CreatedAt (last sorted_runs)"
    using sorted_last_max [OF so] st by blast
  have pre: "\<exists>n\<le>length (butlast sorted_runs). log' = log @ map ?del (take n (butlast sorted_runs))"
    using run by (rule spec_requests_in_order_prefix)
  have dist: "distinct (map WorkflowRun.ID sorted_runs)"
  proof -
    from ms have "mset (map WorkflowRun.ID sorted_runs) = mset (map WorkflowRun.ID runs)" by simp
    from mset_eq_imp_distinct_iff [OF this] ids show ?thesis by simp
  qed
  have never: "?del (last sorted_runs) \<notin> set reqs" if "log' = log @ reqs" "runs \<noteq> []" for reqs
  proof -
    from that(2) len have ne: "sorted_runs \<noteq> []" by auto
    from pre that(1) obtain n where "reqs = map ?del (take n (butlast sorted_runs))" by auto
    then have "set reqs \<subseteq> ?del ` set (butlast sorted_runs)"
      by (auto dest: in_set_takeD)
    moreover have "WorkflowRun.ID (last sorted_runs) \<notin> WorkflowRun.ID ` set (butlast sorted_runs)"
      using dist ne by (rule distinct_last_notin_butlast)
    ultimately show ?thesis by (auto simp: delete_request_def)
  qed
  have all: "log' = log @ map ?del (butlast sorted_runs)" if "result = None"
    using run that spec_requests_in_order_None [of ?ans ?del "butlast sorted_runs" log log'] by simp
  have exact: "set reqs = ?del ` (set runs - {last sorted_runs})"
    if "result = None" "log' = log @ reqs" "runs \<noteq> []" for reqs
  proof -
    from that(3) len have ne: "sorted_runs \<noteq> []" by auto
    from dist have d: "distinct sorted_runs" by (simp add: distinct_map)
    from ne have e: "butlast sorted_runs @ [last sorted_runs] = sorted_runs" by simp
    have "distinct (butlast sorted_runs @ [last sorted_runs])"
      using d by (simp only: e)
    then have "last sorted_runs \<notin> set (butlast sorted_runs)" by simp
    moreover have "set sorted_runs = insert (last sorted_runs) (set (butlast sorted_runs))"
      using arg_cong [OF e, of set] by simp
    ultimately have "set (butlast sorted_runs) = set sorted_runs - {last sorted_runs}"
      by auto
    with all [OF that(1)] that(2) st show ?thesis by simp
  qed
  have small: "log' = log \<and> result = None" if "length runs \<le> 1"
  proof -
    from that len have "length (butlast sorted_runs) = 0" by simp
    then have "butlast sorted_runs = []" by (rule length_0_conv [THEN iffD1])
    with run show ?thesis by simp
  qed
  have three: "log' = log @ [?del r1, ?del r2]"
    if "mset runs = {#r1, r2, r3#}" "CreatedAt r1 < CreatedAt r2" "CreatedAt r2 < CreatedAt r3"
       "result = None" for r1 r2 r3
  proof -
    from ms that(1) have "mset sorted_runs = {#r1, r2, r3#}" by simp
    from sorted_three [OF so this that(2,3)] have "sorted_runs = [r1, r2, r3]" .
    with all [OF that(4)] show ?thesis by simp
  qed
  have fail: "\<exists>pre run post. butlast sorted_runs = pre @ run # post
               \<and> log' = log @ map ?del (pre @ [run])
               \<and> (\<exists>err'. ?ans (log @ map ?del pre) run = Some err' \<and> err = Wrap (Wrap (Wrap err')))"
    if "result = Some err" for err
  proof -
    from run that have "spec_requests_in_order ?ans ?del (butlast sorted_runs) log = (log', Some err)"
      by simp
    from spec_requests_in_order_Some [OF this] obtain pre x post where
      "butlast sorted_runs = pre @ x # post" "log' = log @ map ?del (pre @ [x])"
      "?ans (log @ map ?del pre) x = Some err"
      by blast
    moreover have "err = Wrap (Wrap (Wrap err))" by (simp add: Wrap_def)
    ultimately show ?thesis by blast
  qed
  show ?thesis
  proof (intro conjI allI impI)
    show "mset sorted_runs = mset runs" by (rule ms)
    show "\<forall>run\<in>set runs. CreatedAt run \<le> CreatedAt (last sorted_runs)" by (rule mx)
    show "\<exists>n\<le>length (butlast sorted_runs).
        log' = log @ map ?del (take n (butlast sorted_runs))" by (rule pre)
    show "?del (last sorted_runs) \<notin> set reqs" if "log' = log @ reqs \<and> runs \<noteq> []" for reqs
      using that never by blast
    show "log' = log @ map ?del (butlast sorted_runs)" if "result = None"
      using that by (rule all)
    show "set reqs = ?del ` (set runs - {last sorted_runs})"
      if "result = None" "log' = log @ reqs \<and> runs \<noteq> []" for reqs
      using that exact by blast
    show "log' = log" if "length runs \<le> 1" using small [OF that] by simp
    show "result = None" if "length runs \<le> 1" using small [OF that] by simp
    show "log' = log @ [?del r1, ?del r2]"
      if "mset runs = {#r1, r2, r3#} \<and> CreatedAt r1 < CreatedAt r2
              \<and> CreatedAt r2 < CreatedAt r3 \<and> result = None" for r1 r2 r3
      using that three by blast
    show "\<exists>pre run post. butlast sorted_runs = pre @ run # post
               \<and> log' = log @ map ?del (pre @ [run])
               \<and> (\<exists>err'. ?ans (log @ map ?del pre) run = Some err' \<and> err = Wrap (Wrap (Wrap err')))"
      if "result = Some err" for err
      using that by (rule fail)
  qed
qed


theorem DismissStaleWorkflowRuns_keeps_most_recent_witness:
  "getWorkflow (GithubClient example_bot) [] ''Codertocat'' ''Hello-World'' (CheckWorkflow test_ci)
     = Inr \<lparr>Workflow.ID = 10, Name = ''Check''\<rparr>
   \<and> ListWorkflowRunsByID (GithubClient example_bot) [] ''Codertocat'' ''Hello-World'' 10 ''changes''
     = Inr [example_runs ! 1, example_runs ! 2, example_runs ! 4]
   \<and> distinct (map WorkflowRun.ID [example_runs ! 1, example_runs ! 2, example_runs ! 4])
   \<and> insertionSort byCreatedAt [example_runs ! 1, example_runs ! 2, example_runs ! 4]
     = [example_runs ! 4, example_runs ! 2, example_runs ! 1]
   \<and> DismissStaleWorkflowRuns insertionSort test_ci example_bot ''Codertocat'' ''Hello-World''
       ''changes'' []
     = ([DeleteRun ''Codertocat'' ''Hello-World'' 1, DeleteRun ''Codertocat'' ''Hello-World'' 2], None)
   \<and> delete_request ''Codertocat'' ''Hello-World'' (example_runs ! 1)
     \<notin> set [DeleteRun ''Codertocat'' ''Hello-World'' 1, DeleteRun ''Codertocat'' ''Hello-World'' 2]
   \<and> DismissStaleWorkflowRuns insertionSort test_ci refusing_bot ''Codertocat'' ''Hello-World''
       ''changes'' []
     = ([DeleteRun ''Codertocat'' ''Hello-World'' 1], Some (HostError ''refused''))"
proof -
  let ?runs = "[example_runs ! 1, example_runs ! 2, example_runs ! 4]"
  let ?reqs = "[DeleteRun ''Codertocat'' ''Hello-World'' 1, DeleteRun ''Codertocat'' ''Hello-World'' 2]"
  have wf: "getWorkflow (GithubClient example_bot) [] ''Codertocat'' ''Hello-World''
      (CheckWorkflow test_ci) = Inr \<lparr>Workflow.ID = 10, Name = ''Check''\<rparr>"
    by (simp add: getWorkflow_def example_bot_def example_client_def test_ci_def)
  have fetched: "ListWorkflowRunsByID (GithubClient example_bot) [] ''Codertocat'' ''Hello-World''
      (Workflow.ID \<lparr>Workflow.ID = 10, Name = ''Check''\<rparr>) ''changes'' = Inr ?runs"
    by (simp add: example_bot_def example_client_def example_runs_def)
  have ids: "distinct (map WorkflowRun.ID ?runs)"
    by (simp add: example_runs_def)
  have sorted: "insertionSort byCreatedAt ?runs = [example_runs ! 4, example_runs ! 2, example_runs ! 1]"
    by (simp add: insertionSort_def example_runs_def byCreatedAt_def Before_def)
  have res: "DismissStaleWorkflowRuns insertionSort test_ci example_bot ''Codertocat''
      ''Hello-World'' ''changes'' [] = (?reqs, None)"
    by (simp add: DismissStaleWorkflowRuns_def getWorkflow_def getSortedWorkflowRuns_def
          deleteRuns_in_order insertionSort_def byCreatedAt_def Before_def delete_answer_def
          delete_request_def example_bot_def example_client_def example_runs_def test_ci_def)
  note inst = DismissStaleWorkflowRuns_keeps_most_recent
    [OF insertionSort_sorts wf fetched ids refl res]
  have last: "last (insertionSort byCreatedAt ?runs) = example_runs ! 1"
    unfolding sorted by simp
  from inst have "\<forall>reqs. ?reqs = [] @ reqs \<and> ?runs \<noteq> [] \<longrightarrow>
      delete_request ''Codertocat'' ''Hello-World'' (last (insertionSort byCreatedAt ?runs)) \<notin> set reqs"
    by blast
  then have "delete_request ''Codertocat'' ''Hello-World'' (example_runs ! 1) \<notin> set ?reqs"
    unfolding last by simp
  moreover have "DismissStaleWorkflowRuns insertionSort test_ci refusing_bot ''Codertocat''
      ''Hello-World'' ''changes'' [] = ([DeleteRun ''Codertocat'' ''Hello-World'' 1],
        Some (HostError ''refused''))"
    by (simp add: DismissStaleWorkflowRuns_def getWorkflow_def getSortedWorkflowRuns_def
          deleteRuns_in_order insertionSort_def byCreatedAt_def Before_def delete_answer_def
          delete_request_def refusing_bot_def refusing_client_def example_client_def
          example_runs_def test_ci_def Wrap_def)
  ultimately show ?thesis using wf fetched ids sorted res by simp
qed

section \<open>Rerunning the most recent run\<close>

text \<open>
  C8, the claim as stated fails. On the example host the workflow \<open>Check\<close> has four runs;
  listed without a branch filter, the most recent one is run 4, on the branch \<open>other\<close>.
  \<open>ReRunWorkflows\<close> asks for the runs of the branch of the pull request and reruns run 3,
  the most recent run on that branch.
\<close>

theorem ReRunWorkflows_ignores_later_run_on_other_branch:
  "ListWorkflowRunsByID (GithubClient example_bot) [] ''Codertocat'' ''Hello-World'' 10 []
     = Inr [example_runs ! 0, example_runs ! 1, example_runs ! 2, example_runs ! 4]
   \<and> CreatedAt (example_runs ! 1) < CreatedAt (example_runs ! 0)
   \<and> WorkflowRun.ID (example_runs ! 0) = 4
   \<and> getWorkflow (GithubClient example_bot) [] ''Codertocat'' ''Hello-World'' (CheckWorkflow test_ci)
     = Inr \<lparr>Workflow.ID = 10, Name = ''Check''\<rparr>
   \<and> redoMostRecentRun insertionSort example_bot 10 []
     = ([Rerun ''Codertocat'' ''Hello-World'' 3], None)
   \<and> ReRunWorkflows insertionSort test_ci example_bot []
     = ([Rerun ''Codertocat'' ''Hello-World'' 3, Rerun ''Codertocat'' ''Hello-World'' 5], None)"
  by (simp add: ReRunWorkflows_def redoMostRecentRun_def getWorkflow_def
      getSortedWorkflowRuns_def insertionSort_def byCreatedAt_def Before_def
      example_bot_def example_env_def example_client_def example_runs_def test_ci_def test_pr_def)

lemma getWorkflow_Inr:
  "getWorkflow clt log owner repoName workflowName = Inr w \<Longrightarrow>
     Name w = workflowName \<and> (\<exists>ws. ListWorkflows clt log owner repoName = Inr ws \<and> w \<in> set ws)"
  by (auto simp: getWorkflow_def find_Some_iff split: sum.splits option.splits)

text \<open>
  C8, amended. \<open>redoMostRecentRun\<close> fetches the runs of the workflow with the branch of the
  pull request as filter and sorts them by creation time. With no run it makes no request
  and returns the error "workflow run not found". Otherwise it asks once for a rerun, of
  a run fetched whose creation time is the latest of the runs fetched, and returns the
  answer of the host. A call of \<open>ReRunWorkflows\<close> that returns nil has resolved the
  workflow named \<open>CheckWorkflow\<close> and rerun its most recent run in this way, and then the
  workflow named \<open>AssignWorkflow\<close> likewise.
\<close>

theorem redoMostRecentRun_latest_on_branch:
  assumes srt: "sorts srt byCreatedAt"
      and pr: "pr = Metadata (Environment c)"
  shows "(\<forall>workflowID log runs log' result.
            ListWorkflowRunsByID (GithubClient c) log (RepoOwner pr) (RepoName pr) workflowID
              (BranchName pr) = Inr runs
            \<and> redoMostRecentRun srt c workflowID log = (log', result) \<longrightarrow>
            (runs = [] \<longrightarrow> log' = log \<and> result = Some (NotFound ''workflow run not found''))
            \<and> (runs \<noteq> [] \<longrightarrow>
                 (\<exists>target\<in>set runs.
                    (\<forall>run\<in>set runs. CreatedAt run \<le> CreatedAt target)
                    \<and> log' = log @ [Rerun (RepoOwner pr) (RepoName pr) (WorkflowRun.ID target)]
                    \<and> result = map_option Wrap
                         (RerunWorkflowByID (Client (Environment c)) log
                            (RepoOwner pr) (RepoName pr) (WorkflowRun.ID target)))))
       \<and> (\<forall>log log'. ReRunWorkflows srt ci c log = (log', None) \<longrightarrow>
            (\<exists>checkWorkflow assignWorkflow log1.
               getWorkflow (GithubClient c) log (RepoOwner pr) (RepoName pr) (CheckWorkflow ci)
                 = Inr checkWorkflow
               \<and> Name checkWorkflow = CheckWorkflow ci
               \<and> redoMostRecentRun srt c (Workflow.ID checkWorkflow) log = (log1, None)
               \<and> getWorkflow (GithubClient c) log1 (RepoOwner pr) (RepoName pr) (AssignWorkflow ci)
                 = Inr assignWorkflow
               \<and> Name assignWorkflow = AssignWorkflow ci
               \<and> redoMostRecentRun srt c (Workflow.ID assignWorkflow) log1 = (log', None)))"
proof -
  have redo: "(runs = [] \<longrightarrow> log' = log \<and> result = Some (NotFound ''workflow run not found''))
            \<and> (runs \<noteq> [] \<longrightarrow>
                 (\<exists>target\<in>set runs.
                    (\<forall>run\<in>set runs. CreatedAt run \<le> CreatedAt target)
                    \<and> log' = log @ [Rerun (RepoOwner pr) (RepoName pr) (WorkflowRun.ID target)]
                    \<and> result = map_option Wrap
                         (RerunWorkflowByID (Client (Environment c)) log
                            (RepoOwner pr) (RepoName pr) (WorkflowRun.ID target))))"
    if fetched: "ListWorkflowRunsByID (GithubClient c) log (RepoOwner pr) (RepoName pr) workflowID
              (BranchName pr) = Inr runs"
      and res: "redoMostRecentRun srt c workflowID log = (log', result)"
    for workflowID log runs log' result
  proof -
    let ?s = "srt byCreatedAt runs"
    have ms: "mset ?s = mset runs" and so: "sorted (map CreatedAt ?s)"
      using sorts_byCreatedAt [OF srt] by simp_all
    from ms have st: "set ?s = set runs" by (rule mset_eq_setD)
    from ms have len: "length ?s = length runs" by (rule mset_eq_length)
    have got: "getSortedWorkflowRuns srt (GithubClient c) log (RepoOwner pr) (RepoName pr)
        (BranchName pr) workflowID = Inr ?s"
      using fetched by (simp add: getSortedWorkflowRuns_def)
    show ?thesis
    proof (cases "runs = []")
      case True
      with len have "length ?s < 1" by simp
      with res got pr True show ?thesis
        by (simp add: redoMostRecentRun_def Let_def)
    next
      case False
      with len have ne: "?s \<noteq> []" by auto
      then have target: "?s ! (length ?s - 1) = last ?s" by (simp add: last_conv_nth)
      from ne have "last ?s \<in> set runs" using st last_in_set by blast
      moreover have "\<forall>run\<in>set runs. CreatedAt run \<le> CreatedAt (last ?s)"
        using sorted_last_max [OF so] st by blast
      moreover from ne have l: "\<not> length ?s < 1" by (cases ?s) auto
      have "log' = log @ [Rerun (RepoOwner pr) (RepoName pr) (WorkflowRun.ID (last ?s))]
          \<and> result = map_option Wrap
                         (RerunWorkflowByID (Client (Environment c)) log
                            (RepoOwner pr) (RepoName pr) (WorkflowRun.ID (last ?s)))"
        using res got pr l target
        by (auto simp: redoMostRecentRun_def Let_def split: option.splits)
      ultimately show ?thesis using False by blast
    qed
  qed
  have both: "\<exists>checkWorkflow assignWorkflow log1.
               getWorkflow (GithubClient c) log (RepoOwner pr) (RepoName pr) (CheckWorkflow ci)
                 = Inr checkWorkflow
               \<and> Name checkWorkflow = CheckWorkflow ci
               \<and> redoMostRecentRun srt c (Workflow.ID checkWorkflow) log = (log1, None)
               \<and> getWorkflow (GithubClient c) log1 (RepoOwner pr) (RepoName pr) (AssignWorkflow ci)
                 = Inr assignWorkflow
               \<and> Name assignWorkflow = AssignWorkflow ci
               \<and> redoMostRecentRun srt c (Workflow.ID assignWorkflow) log1 = (log', None)"
    if "ReRunWorkflows srt ci c log = (log', None)" for log log'
  proof -
    from that obtain cw where cw: "getWorkflow (GithubClient c) log (RepoOwner pr) (RepoName pr)
        (CheckWorkflow ci) = Inr cw"
      unfolding ReRunWorkflows_def Let_def pr
      by (cases "getWorkflow (GithubClient c) log (RepoOwner (Metadata (Environment c)))
            (RepoName (Metadata (Environment c))) (CheckWorkflow ci)") auto
    obtain log1 r1 where r1: "redoMostRecentRun srt c (Workflow.ID cw) log = (log1, r1)"
      by (cases "redoMostRecentRun srt c (Workflow.ID cw) log") auto
    with that cw have n1: "r1 = None"
      unfolding ReRunWorkflows_def Let_def pr by (cases r1) auto
    from that cw r1 n1 obtain aw where aw: "getWorkflow (GithubClient c) log1 (RepoOwner pr)
        (RepoName pr) (AssignWorkflow ci) = Inr aw"
      unfolding ReRunWorkflows_def Let_def pr
      by (cases "getWorkflow (GithubClient c) log1 (RepoOwner (Metadata (Environment c)))
            (RepoName (Metadata (Environment c))) (AssignWorkflow ci)") auto
    obtain log2 r2 where r2: "redoMostRecentRun srt c (Workflow.ID aw) log1 = (log2, r2)"
      by (cases "redoMostRecentRun srt c (Workflow.ID aw) log1") auto
    with that cw r1 n1 aw have "r2 = None \<and> log2 = log'"
      unfolding ReRunWorkflows_def Let_def pr by (cases r2) auto
    with cw r1 n1 aw r2 getWorkflow_Inr [OF cw] getWorkflow_Inr [OF aw] show ?thesis
      by blast
  qed
  show ?thesis
  proof (intro conjI allI impI)
    fix workflowID log runs log' result
    assume h: "ListWorkflowRunsByID (GithubClient c) log (RepoOwner pr) (RepoName pr) workflowID
              (BranchName pr) = Inr runs
            \<and> redoMostRecentRun srt c workflowID log = (log', result)"
    { assume "runs = []"
      with redo [of log workflowID runs log' result] h show "log' = log" by blast
      from \<open>runs = []\<close> redo [of log workflowID runs log' result] h
      show "result = Some (NotFound ''workflow run not found'')" by blast }
    { assume "runs \<noteq> []"
      with redo [of log workflowID runs log' result] h
      show "\<exists>target\<in>set runs.
                    (\<forall>run\<in>set runs. CreatedAt run \<le> CreatedAt target)
                    \<and> log' = log @ [Rerun (RepoOwner pr) (RepoName pr) (WorkflowRun.ID target)]
                    \<and> result = map_option Wrap
                         (RerunWorkflowByID (Client (Environment c)) log
                            (RepoOwner pr) (RepoName pr) (WorkflowRun.ID target))"
        by blast }
  next
    fix log log'
    assume "ReRunWorkflows srt ci c log = (log', None)"
    then show "\<exists>checkWorkflow assignWorkflow log1.
               getWorkflow (GithubClient c) log (RepoOwner pr) (RepoName pr) (CheckWorkflow ci)
                 = Inr checkWorkflow
               \<and> Name checkWorkflow = CheckWorkflow ci
               \<and> redoMostRecentRun srt c (Workflow.ID checkWorkflow) log = (log1, None)
               \<and> getWorkflow (GithubClient c) log1 (RepoOwner pr) (RepoName pr) (AssignWorkflow ci)
                 = Inr assignWorkflow
               \<and> Name assignWorkflow = AssignWorkflow ci
               \<and> redoMostRecentRun srt c (Workflow.ID assignWorkflow) log1 = (log', None)"
      by (rule both)
  qed
qed


theorem redoMostRecentRun_latest_on_branch_witness:
  "ListWorkflowRunsByID (GithubClient example_bot) [] (RepoOwner test_pr) (RepoName test_pr) 10
       (BranchName test_pr)
     = Inr [example_runs ! 1, example_runs ! 2, example_runs ! 4]
   \<and> redoMostRecentRun insertionSort example_bot 10 []
     = ([Rerun ''Codertocat'' ''Hello-World'' 3], None)
   \<and> ListWorkflowRunsByID (GithubClient example_bot) [] (RepoOwner test_pr) (RepoName test_pr) 99
       (BranchName test_pr)
     = Inr []
   \<and> redoMostRecentRun insertionSort example_bot 99 []
     = ([], Some (NotFound ''workflow run not found''))"
proof -
  have pr: "test_pr = Metadata (Environment example_bot)"
    by (simp add: example_bot_def example_env_def)
  note inst = redoMostRecentRun_latest_on_branch
    [OF insertionSort_sorts pr, of test_ci, THEN conjunct1, rule_format]
  have f10: "ListWorkflowRunsByID (GithubClient example_bot) [] (RepoOwner test_pr)
      (RepoName test_pr) 10 (BranchName test_pr)
     = Inr [example_runs ! 1, example_runs ! 2, example_runs ! 4]"
    by (simp add: example_bot_def example_client_def example_runs_def test_pr_def)
  have r10: "redoMostRecentRun insertionSort example_bot 10 []
     = ([Rerun ''Codertocat'' ''Hello-World'' 3], None)"
    by (simp add: redoMostRecentRun_def getSortedWorkflowRuns_def insertionSort_def
        byCreatedAt_def Before_def example_bot_def example_env_def example_client_def
        example_runs_def test_pr_def)
  have f99: "ListWorkflowRunsByID (GithubClient example_bot) [] (RepoOwner test_pr)
      (RepoName test_pr) 99 (BranchName test_pr) = Inr []"
    by (simp add: example_bot_def example_client_def example_runs_def test_pr_def)
  obtain log' result where r99: "redoMostRecentRun insertionSort example_bot 99 [] = (log', result)"
    by (cases "redoMostRecentRun insertionSort example_bot 99 []") auto
  from inst [OF conjI [OF f99 r99]]
  have "log' = [] \<and> result = Some (NotFound ''workflow run not found'')" by simp
  with r99 have n99: "redoMostRecentRun insertionSort example_bot 99 []
     = ([], Some (NotFound ''workflow run not found''))" by simp
  from f10 r10 f99 n99 show ?thesis by blast
qed

end
